theory Spec2Isabelle
  imports Main
begin

section \<open>Items and nodes\<close>

text \<open>
  An \<open>Item\<close> is any value with a method \<open>Compare(Item) int\<close>. The elements of the type
  \<open>'a\<close> are the non-nil items; the nil item, which the operations return for "nothing",
  is \<open>None\<close> of \<open>'a option\<close>. The method is a function \<open>cmp\<close> passed to every operation
  that compares: \<open>x.Compare(y)\<close> is \<open>cmp x y\<close>.

  A \<open>*node\<close> is \<open>NilNode\<close> for the nil pointer, or \<open>Node value left right h\<close> (the fields
  in the order of the struct). Heights and sizes are Go \<open>int\<close>s; they count nodes and
  levels of a tree held in memory and stay far below \<open>2^63\<close>, so they are integers here.

  A panic is a value of type \<open>error\<close>: the explicit panic of \<open>rebalance\<close>, or the
  dereference of a nil pointer.
\<close>

datatype error = NilDereference | BalancingError

datatype 'a node = NilNode | Node 'a "'a node" "'a node" int

type_synonym 'a compare = "'a \<Rightarrow> 'a \<Rightarrow> int"

fun Size :: "'a node \<Rightarrow> int" where
  "Size NilNode = 0"
| "Size (Node v l r hh) = 1 + Size l + Size r"

fun height :: "'a node \<Rightarrow> int" where
  "height NilNode = 0"
| "height (Node v l r hh) = hh"

fun balance :: "'a node \<Rightarrow> int" where
  "balance NilNode = 0"
| "balance (Node v l r hh) = height r - height l"

fun adjustHeight :: "'a node \<Rightarrow> error + 'a node" where
  "adjustHeight NilNode = Inl NilDereference"
| "adjustHeight (Node v l r hh) = Inr (Node v l r (max (height l) (height r) + 1))"

text \<open>
  \<open>rotateRight\<close>: \<open>root\<close> is the clone of \<open>n.left\<close>, \<open>node\<close> the clone of \<open>n\<close> with
  \<open>node.left = root.right\<close>; then \<open>root.right = node\<close>, and the two heights are
  recomputed, \<open>node\<close> first. With \<open>n\<close> or \<open>n.left\<close> nil the field access panics.
\<close>

fun rotateRight :: "'a node \<Rightarrow> error + 'a node" where
  "rotateRight (Node v (Node lv ll lr lh) r hh) =
     (case adjustHeight (Node v lr r hh) of
        Inl e \<Rightarrow> Inl e
      | Inr node \<Rightarrow> adjustHeight (Node lv ll node lh))"
| "rotateRight (Node v NilNode r hh) = Inl NilDereference"
| "rotateRight NilNode = Inl NilDereference"

fun rotateLeft :: "'a node \<Rightarrow> error + 'a node" where
  "rotateLeft (Node v l (Node rv rl rr rh) hh) =
     (case adjustHeight (Node v l rl hh) of
        Inl e \<Rightarrow> Inl e
      | Inr node \<Rightarrow> adjustHeight (Node rv node rr rh))"
| "rotateLeft (Node v l NilNode hh) = Inl NilDereference"
| "rotateLeft NilNode = Inl NilDereference"

fun rebalance :: "'a node \<Rightarrow> error + 'a node" where
  "rebalance NilNode = Inr NilNode"
| "rebalance (Node v l r hh) =
     (let b = balance (Node v l r hh) in
      if b < -1 \<and> balance l \<le> 0 then rotateRight (Node v l r hh)
      else if b > 1 \<and> balance r \<ge> 0 then rotateLeft (Node v l r hh)
      else if b < -1 \<and> balance l > 0 then
        (case rotateLeft l of
           Inl e \<Rightarrow> Inl e
         | Inr l' \<Rightarrow> rotateRight (Node v l' r hh))
      else if b > 1 \<and> balance r < 0 then
        (case rotateRight r of
           Inl e \<Rightarrow> Inl e
         | Inr r' \<Rightarrow> rotateLeft (Node v l r' hh))
      else if b > 1 \<or> b < -1 then Inl BalancingError
      else Inr (Node v l r hh))"

text \<open>The tail shared by the modifying operations: \<open>root.adjustHeight()\<close>, then
  \<open>root.rebalance()\<close>.\<close>

definition adjust_rebalance :: "'a node \<Rightarrow> error + 'a node" where
  "adjust_rebalance root =
     (case adjustHeight root of Inl e \<Rightarrow> Inl e | Inr root' \<Rightarrow> rebalance root')"

section \<open>Modifying operations of a node\<close>

fun Insert :: "'a compare \<Rightarrow> 'a node \<Rightarrow> 'a \<Rightarrow> error + ('a node \<times> 'a option)" where
  "Insert cmp NilNode x = Inr (Node x NilNode NilNode 1, None)"
| "Insert cmp (Node v l r hh) x =
     (if cmp x v < 0 then
        (case Insert cmp l x of
           Inl e \<Rightarrow> Inl e
         | Inr (m, Some existing) \<Rightarrow> Inr (Node v l r hh, Some existing)
         | Inr (m, None) \<Rightarrow>
             (case adjust_rebalance (Node v m r hh) of
                Inl e \<Rightarrow> Inl e
              | Inr root \<Rightarrow> Inr (root, None)))
      else if cmp x v > 0 then
        (case Insert cmp r x of
           Inl e \<Rightarrow> Inl e
         | Inr (m, Some existing) \<Rightarrow> Inr (Node v l r hh, Some existing)
         | Inr (m, None) \<Rightarrow>
             (case adjust_rebalance (Node v l m hh) of
                Inl e \<Rightarrow> Inl e
              | Inr root \<Rightarrow> Inr (root, None)))
      else Inr (Node v l r hh, Some v))"

text \<open>
  \<open>Update\<close> clones \<open>n\<close> first and always reaches \<open>root.adjustHeight()\<close>. The branch for
  \<open>cmp > 0\<close> calls \<open>n.right.Insert(x)\<close>, and the final statement is
  \<open>return root.rebalance(), nil\<close>: the value assigned to \<open>prev\<close> in the switch is
  dropped.
\<close>

fun Update :: "'a compare \<Rightarrow> 'a node \<Rightarrow> 'a \<Rightarrow> error + ('a node \<times> 'a option)" where
  "Update cmp NilNode x = Inr (Node x NilNode NilNode 1, None)"
| "Update cmp (Node v l r hh) x =
     (if cmp x v < 0 then
        (case Update cmp l x of
           Inl e \<Rightarrow> Inl e
         | Inr (m, prev) \<Rightarrow>
             (case adjust_rebalance (Node v m r hh) of
                Inl e \<Rightarrow> Inl e
              | Inr root \<Rightarrow> Inr (root, None)))
      else if cmp x v > 0 then
        (case Insert cmp r x of
           Inl e \<Rightarrow> Inl e
         | Inr (m, prev) \<Rightarrow>
             (case adjust_rebalance (Node v l m hh) of
                Inl e \<Rightarrow> Inl e
              | Inr root \<Rightarrow> Inr (root, None)))
      else
        (case adjust_rebalance (Node x l r hh) of
           Inl e \<Rightarrow> Inl e
         | Inr root \<Rightarrow> Inr (root, None)))"

fun Max_node :: "'a node \<Rightarrow> 'a option" where
  "Max_node NilNode = None"
| "Max_node (Node v l r hh) = (if r \<noteq> NilNode then Max_node r else Some v)"

fun Min_node :: "'a node \<Rightarrow> 'a option" where
  "Min_node NilNode = None"
| "Min_node (Node v l r hh) = (if l \<noteq> NilNode then Min_node l else Some v)"

text \<open>
  \<open>Delete\<close> and \<open>destroy\<close> call each other. \<open>destroy\<close> with two children builds a
  \<open>new(node)\<close> (height field 0) holding the maximum \<open>m\<close> of the left subtree, with
  \<open>n.left.Delete(m)\<close> on its left; with one child it returns that child itself; with none,
  nil. \<open>Delete\<close> then returns nil for a nil \<open>root\<close> and otherwise adjusts the height of
  \<open>root\<close> and rebalances it.
\<close>

fun Delete :: "'a compare \<Rightarrow> 'a node \<Rightarrow> 'a \<Rightarrow> error + ('a node \<times> 'a option)"
  and destroy :: "'a compare \<Rightarrow> 'a node \<Rightarrow> error + 'a node" where
  "Delete cmp NilNode x = Inr (NilNode, None)"
| "Delete cmp (Node v l r hh) x =
     (if cmp x v < 0 then
        (case Delete cmp l x of
           Inl e \<Rightarrow> Inl e
         | Inr (m, None) \<Rightarrow> Inr (Node v l r hh, None)
         | Inr (m, Some existed) \<Rightarrow>
             (case adjust_rebalance (Node v m r hh) of
                Inl e \<Rightarrow> Inl e
              | Inr root \<Rightarrow> Inr (root, Some existed)))
      else if cmp x v > 0 then
        (case Delete cmp r x of
           Inl e \<Rightarrow> Inl e
         | Inr (m, None) \<Rightarrow> Inr (Node v l r hh, None)
         | Inr (m, Some existed) \<Rightarrow>
             (case adjust_rebalance (Node v l m hh) of
                Inl e \<Rightarrow> Inl e
              | Inr root \<Rightarrow> Inr (root, Some existed)))
      else
        (case destroy cmp (Node v l r hh) of
           Inl e \<Rightarrow> Inl e
         | Inr NilNode \<Rightarrow> Inr (NilNode, Some v)
         | Inr (Node v' l' r' h') \<Rightarrow>
             (case adjust_rebalance (Node v' l' r' h') of
                Inl e \<Rightarrow> Inl e
              | Inr root \<Rightarrow> Inr (root, Some v))))"
| "destroy cmp NilNode = Inl NilDereference"
| "destroy cmp (Node v l r hh) =
     (if l \<noteq> NilNode \<and> r \<noteq> NilNode then
        (case Max_node l of
           None \<Rightarrow> Inl NilDereference
         | Some m \<Rightarrow>
             (case Delete cmp l m of
                Inl e \<Rightarrow> Inl e
              | Inr (l', _) \<Rightarrow> Inr (Node m l' r 0)))
      else if l \<noteq> NilNode then Inr l
      else if r \<noteq> NilNode then Inr r
      else Inr NilNode)"

section \<open>Queries of a node\<close>

fun Search :: "'a compare \<Rightarrow> 'a node \<Rightarrow> 'a \<Rightarrow> 'a option" where
  "Search cmp NilNode x = None"
| "Search cmp (Node v l r hh) x =
     (if cmp x v < 0 then Search cmp l x
      else if cmp x v > 0 then Search cmp r x
      else Some v)"

fun Predcessor :: "'a compare \<Rightarrow> 'a node \<Rightarrow> 'a \<Rightarrow> 'a option" where
  "Predcessor cmp NilNode x = None"
| "Predcessor cmp (Node v l r hh) x =
     (if cmp x v < 0 then Predcessor cmp l x
      else if cmp x v > 0 then
        (case Predcessor cmp r x of None \<Rightarrow> Some v | Some p \<Rightarrow> Some p)
      else Max_node l)"

fun Successor :: "'a compare \<Rightarrow> 'a node \<Rightarrow> 'a \<Rightarrow> 'a option" where
  "Successor cmp NilNode x = None"
| "Successor cmp (Node v l r hh) x =
     (if cmp x v < 0 then
        (case Successor cmp l x of None \<Rightarrow> Some v | Some s \<Rightarrow> Some s)
      else if cmp x v > 0 then Successor cmp r x
      else Min_node r)"

text \<open>
  The visitor \<open>fn\<close> is a closure: it receives an item, may change the state \<open>'s\<close> it
  closes over, and returns a boolean. The traversals call \<open>fn(n.value)\<close> as a statement,
  so the boolean is computed and not looked at.
\<close>

type_synonym ('a, 's) visitor = "'a \<Rightarrow> 's \<Rightarrow> bool \<times> 's"

fun InOrder :: "'a node \<Rightarrow> ('a, 's) visitor \<Rightarrow> 's \<Rightarrow> 's" where
  "InOrder NilNode fn s = s"
| "InOrder (Node v l r hh) fn s =
     (let s1 = InOrder l fn s;
          s2 = snd (fn v s1)
      in InOrder r fn s2)"

fun PreOrder :: "'a node \<Rightarrow> ('a, 's) visitor \<Rightarrow> 's \<Rightarrow> 's" where
  "PreOrder NilNode fn s = s"
| "PreOrder (Node v l r hh) fn s =
     (let s1 = snd (fn v s);
          s2 = PreOrder l fn s1
      in PreOrder r fn s2)"

fun PostOrder :: "'a node \<Rightarrow> ('a, 's) visitor \<Rightarrow> 's \<Rightarrow> 's" where
  "PostOrder NilNode fn s = s"
| "PostOrder (Node v l r hh) fn s =
     (let s1 = PostOrder l fn s;
          s2 = PostOrder r fn s1
      in snd (fn v s2))"

section \<open>The tree handle\<close>

text \<open>
  \<open>Tree\<close> holds the root and the element count. Its methods have value receivers: they
  change their own copy of the handle and return it. \<open>Tree.Predecessor\<close> is written
  against a node method \<open>Predecessor\<close>; the node method that exists is \<open>Predcessor\<close>, and
  this is the one it is taken to call.
\<close>

record 'a Tree =
  root :: "'a node"
  size_of :: int

definition empty_Tree :: "'a Tree" where
  "empty_Tree = \<lparr>root = NilNode, size_of = 0\<rparr>"

definition Tree_Size :: "'a Tree \<Rightarrow> int" where
  "Tree_Size t = size_of t"

definition Tree_Insert :: "'a compare \<Rightarrow> 'a Tree \<Rightarrow> 'a \<Rightarrow> error + ('a Tree \<times> 'a option)" where
  "Tree_Insert cmp t x =
     (case Insert cmp (root t) x of
        Inl e \<Rightarrow> Inl e
      | Inr (n, existing) \<Rightarrow>
          Inr (\<lparr>root = n, size_of = (if existing = None then size_of t + 1 else size_of t)\<rparr>,
               existing))"

definition Tree_Update :: "'a compare \<Rightarrow> 'a Tree \<Rightarrow> 'a \<Rightarrow> error + ('a Tree \<times> 'a option)" where
  "Tree_Update cmp t x =
     (case Update cmp (root t) x of
        Inl e \<Rightarrow> Inl e
      | Inr (n, prev) \<Rightarrow>
          Inr (\<lparr>root = n, size_of = (if prev = None then size_of t + 1 else size_of t)\<rparr>,
               prev))"

definition Tree_Delete :: "'a compare \<Rightarrow> 'a Tree \<Rightarrow> 'a \<Rightarrow> error + ('a Tree \<times> 'a option)" where
  "Tree_Delete cmp t x =
     (case Delete cmp (root t) x of
        Inl e \<Rightarrow> Inl e
      | Inr (n, existed) \<Rightarrow>
          Inr (\<lparr>root = n, size_of = (if existed \<noteq> None then size_of t - 1 else size_of t)\<rparr>,
               existed))"

definition Tree_Max :: "'a Tree \<Rightarrow> 'a option" where
  "Tree_Max t = Max_node (root t)"

definition Tree_Min :: "'a Tree \<Rightarrow> 'a option" where
  "Tree_Min t = Min_node (root t)"

definition Tree_Search :: "'a compare \<Rightarrow> 'a Tree \<Rightarrow> 'a \<Rightarrow> 'a option" where
  "Tree_Search cmp t x = Search cmp (root t) x"

definition Tree_Predecessor :: "'a compare \<Rightarrow> 'a Tree \<Rightarrow> 'a \<Rightarrow> 'a option" where
  "Tree_Predecessor cmp t x = Predcessor cmp (root t) x"

definition Tree_Successor :: "'a compare \<Rightarrow> 'a Tree \<Rightarrow> 'a \<Rightarrow> 'a option" where
  "Tree_Successor cmp t x = Successor cmp (root t) x"

definition Tree_InOrder :: "'a Tree \<Rightarrow> ('a, 's) visitor \<Rightarrow> 's \<Rightarrow> 's" where
  "Tree_InOrder t fn s = InOrder (root t) fn s"

definition Tree_PreOrder :: "'a Tree \<Rightarrow> ('a, 's) visitor \<Rightarrow> 's \<Rightarrow> 's" where
  "Tree_PreOrder t fn s = PreOrder (root t) fn s"

definition Tree_PostOrder :: "'a Tree \<Rightarrow> ('a, 's) visitor \<Rightarrow> 's \<Rightarrow> 's" where
  "Tree_PostOrder t fn s = PostOrder (root t) fn s"

section \<open>Sequences of public operations\<close>

datatype 'a op = OpInsert 'a | OpUpdate 'a | OpDelete 'a

fun apply_op :: "'a compare \<Rightarrow> 'a Tree \<Rightarrow> 'a op \<Rightarrow> error + 'a Tree" where
  "apply_op cmp t (OpInsert x) =
     (case Tree_Insert cmp t x of Inl e \<Rightarrow> Inl e | Inr (t', _) \<Rightarrow> Inr t')"
| "apply_op cmp t (OpUpdate x) =
     (case Tree_Update cmp t x of Inl e \<Rightarrow> Inl e | Inr (t', _) \<Rightarrow> Inr t')"
| "apply_op cmp t (OpDelete x) =
     (case Tree_Delete cmp t x of Inl e \<Rightarrow> Inl e | Inr (t', _) \<Rightarrow> Inr t')"

fun run :: "'a compare \<Rightarrow> 'a Tree \<Rightarrow> 'a op list \<Rightarrow> error + 'a Tree" where
  "run cmp t [] = Inr t"
| "run cmp t (o1 # os) =
     (case apply_op cmp t o1 of Inl e \<Rightarrow> Inl e | Inr t' \<Rightarrow> run cmp t' os)"

section \<open>Vocabulary of the properties\<close>

text \<open>
  The comparison contract of an item type: \<open>x.Compare(y)\<close> is negative exactly when
  \<open>y.Compare(x)\<close> is positive, and "compares less than or equal" is transitive.
\<close>

definition consistent :: "'a compare \<Rightarrow> bool" where
  "consistent cmp \<longleftrightarrow>
     (\<forall>x y. (cmp x y < 0) = (0 < cmp y x)) \<and>
     (\<forall>x y z. cmp x y \<le> 0 \<longrightarrow> cmp y z \<le> 0 \<longrightarrow> cmp x z \<le> 0)"

text \<open>The stored items from left to right.\<close>

fun items :: "'a node \<Rightarrow> 'a list" where
  "items NilNode = []"
| "items (Node v l r hh) = items l @ v # items r"

definition ordered :: "'a compare \<Rightarrow> 'a node \<Rightarrow> bool" where
  "ordered cmp t = sorted_wrt (\<lambda>a b. cmp a b < 0) (items t)"

text \<open>
  The balance invariant, read off the cached heights as \<open>height()\<close> returns them: the
  heights of the children of a node differ by at most one, and the height field of the node
  is one more than the larger of them.
\<close>

fun avl :: "'a node \<Rightarrow> bool" where
  "avl NilNode = True"
| "avl (Node v l r hh) =
     (avl l \<and> avl r \<and> \<bar>height r - height l\<bar> \<le> 1 \<and> hh = 1 + max (height l) (height r))"

text \<open>
  A visitor that appends every item it is called with to a list and answers
  \<open>go_on x\<close>: the list is the sequence of calls the traversal has made.
\<close>

definition recording :: "('a \<Rightarrow> bool) \<Rightarrow> ('a, 'a list) visitor" where
  "recording go_on x calls = (go_on x, calls @ [x])"

text \<open>
  An item type for concrete runs: a key with a payload, compared by key. Two items with
  the same key and different payloads compare equal and are different values.
\<close>

type_synonym KV = "int \<times> string"

definition KV_Compare :: "KV compare" where
  "KV_Compare a b = (if fst a < fst b then -1 else if fst a = fst b then 0 else 1)"

text \<open>
  What \<open>Predecessor(x)\<close> and \<open>Successor(x)\<close> are to return on the stored items \<open>xs\<close>:
  the greatest item less than \<open>x\<close>, or nothing when no item is less than \<open>x\<close>; the
  smallest item greater than \<open>x\<close>, or nothing when no item is greater.
\<close>

definition is_predecessor :: "'a compare \<Rightarrow> 'a list \<Rightarrow> 'a \<Rightarrow> 'a option \<Rightarrow> bool" where
  "is_predecessor cmp xs x res =
     (case res of
        None \<Rightarrow> \<forall>y\<in>set xs. \<not> cmp y x < 0
      | Some p \<Rightarrow> p \<in> set xs \<and> cmp p x < 0 \<and> (\<forall>y\<in>set xs. cmp y x < 0 \<longrightarrow> cmp y p \<le> 0))"

definition is_successor :: "'a compare \<Rightarrow> 'a list \<Rightarrow> 'a \<Rightarrow> 'a option \<Rightarrow> bool" where
  "is_successor cmp xs x res =
     (case res of
        None \<Rightarrow> \<forall>y\<in>set xs. \<not> cmp x y < 0
      | Some s \<Rightarrow> s \<in> set xs \<and> cmp x s < 0 \<and> (\<forall>y\<in>set xs. cmp x y < 0 \<longrightarrow> cmp s y \<le> 0))"

text \<open>
  The same invariant read off the shape of the tree: \<open>depth\<close> is the number of levels of a
  subtree, computed from the tree and not from the height fields.
\<close>

fun depth :: "'a node \<Rightarrow> int" where
  "depth NilNode = 0"
| "depth (Node v l r hh) = 1 + max (depth l) (depth r)"

fun balanced :: "'a node \<Rightarrow> bool" where
  "balanced NilNode = True"
| "balanced (Node v l r hh) =
     (balanced l \<and> balanced r \<and> \<bar>depth r - depth l\<bar> \<le> 1 \<and> hh = 1 + max (depth l) (depth r))"

section \<open>Nodes in memory\<close>

text \<open>
  The operations above pass trees as values. In the program a \<open>*node\<close> is a pointer, two
  trees may share nodes, and \<open>adjustHeight\<close> and the assignments to \<open>root.left\<close>,
  \<open>root.right\<close> and \<open>root.value\<close> write into a node in place. The store makes this
  explicit: a \<open>ref\<close> is nil (\<open>None\<close>) or an address, \<open>cells\<close> gives the node struct at
  every address, and the addresses below \<open>next_free\<close> are the allocated ones; \<open>&node{...}\<close>,
  \<open>new(node)\<close> and \<open>&cp\<close> allocate at \<open>next_free\<close>. A Go pointer is nil or points to an
  allocated node, so reading a field fails only at nil.

  The recursive operations take fuel, since a store may hold a cycle: \<open>OutOfFuel\<close> stands
  for a call that does not return within the given number of nested calls.
\<close>

type_synonym ref = "nat option"

record 'a cell =
  n_value :: 'a
  n_left :: ref
  n_right :: ref
  n_h :: int

record 'a store =
  cells :: "nat \<Rightarrow> 'a cell"
  next_free :: nat

datatype fault = OutOfFuel | Panicked error

definition alloc :: "'a store \<Rightarrow> 'a cell \<Rightarrow> ref \<times> 'a store" where
  "alloc hp c =
     (Some (next_free hp),
      \<lparr>cells = (cells hp)(next_free hp := c), next_free = Suc (next_free hp)\<rparr>)"

definition clone_h :: "'a store \<Rightarrow> ref \<Rightarrow> ref \<times> 'a store" where
  "clone_h hp n = (case n of None \<Rightarrow> (None, hp) | Some a \<Rightarrow> alloc hp (cells hp a))"

definition set_left :: "'a store \<Rightarrow> ref \<Rightarrow> ref \<Rightarrow> fault + 'a store" where
  "set_left hp n m =
     (case n of
        None \<Rightarrow> Inl (Panicked NilDereference)
      | Some a \<Rightarrow> Inr (hp\<lparr>cells := (cells hp)(a := (cells hp a)\<lparr>n_left := m\<rparr>)\<rparr>))"

definition set_right :: "'a store \<Rightarrow> ref \<Rightarrow> ref \<Rightarrow> fault + 'a store" where
  "set_right hp n m =
     (case n of
        None \<Rightarrow> Inl (Panicked NilDereference)
      | Some a \<Rightarrow> Inr (hp\<lparr>cells := (cells hp)(a := (cells hp a)\<lparr>n_right := m\<rparr>)\<rparr>))"

definition set_value :: "'a store \<Rightarrow> ref \<Rightarrow> 'a \<Rightarrow> fault + 'a store" where
  "set_value hp n x =
     (case n of
        None \<Rightarrow> Inl (Panicked NilDereference)
      | Some a \<Rightarrow> Inr (hp\<lparr>cells := (cells hp)(a := (cells hp a)\<lparr>n_value := x\<rparr>)\<rparr>))"

definition height_h :: "'a store \<Rightarrow> ref \<Rightarrow> int" where
  "height_h hp n = (case n of None \<Rightarrow> 0 | Some a \<Rightarrow> n_h (cells hp a))"

definition balance_h :: "'a store \<Rightarrow> ref \<Rightarrow> int" where
  "balance_h hp n =
     (case n of
        None \<Rightarrow> 0
      | Some a \<Rightarrow> height_h hp (n_right (cells hp a)) - height_h hp (n_left (cells hp a)))"

definition adjustHeight_h :: "'a store \<Rightarrow> ref \<Rightarrow> fault + 'a store" where
  "adjustHeight_h hp n =
     (case n of
        None \<Rightarrow> Inl (Panicked NilDereference)
      | Some a \<Rightarrow>
          Inr (hp\<lparr>cells := (cells hp)(a := (cells hp a)
                 \<lparr>n_h := max (height_h hp (n_left (cells hp a)))
                             (height_h hp (n_right (cells hp a))) + 1\<rparr>)\<rparr>))"

definition rotateRight_h :: "'a store \<Rightarrow> ref \<Rightarrow> fault + (ref \<times> 'a store)" where
  "rotateRight_h hp n =
     (case n of
        None \<Rightarrow> Inl (Panicked NilDereference)
      | Some a \<Rightarrow>
         (let (rt, hp1) = clone_h hp (n_left (cells hp a));
              (nd, hp2) = clone_h hp1 n
          in (case rt of
                None \<Rightarrow> Inl (Panicked NilDereference)
              | Some b \<Rightarrow>
                 (case set_left hp2 nd (n_right (cells hp2 b)) of
                    Inl f \<Rightarrow> Inl f
                  | Inr hp3 \<Rightarrow>
                     (case set_right hp3 rt nd of
                        Inl f \<Rightarrow> Inl f
                      | Inr hp4 \<Rightarrow>
                         (case adjustHeight_h hp4 nd of
                            Inl f \<Rightarrow> Inl f
                          | Inr hp5 \<Rightarrow>
                             (case adjustHeight_h hp5 rt of
                                Inl f \<Rightarrow> Inl f
                              | Inr hp6 \<Rightarrow> Inr (rt, hp6))))))))"

definition rotateLeft_h :: "'a store \<Rightarrow> ref \<Rightarrow> fault + (ref \<times> 'a store)" where
  "rotateLeft_h hp n =
     (case n of
        None \<Rightarrow> Inl (Panicked NilDereference)
      | Some a \<Rightarrow>
         (let (rt, hp1) = clone_h hp (n_right (cells hp a));
              (nd, hp2) = clone_h hp1 n
          in (case rt of
                None \<Rightarrow> Inl (Panicked NilDereference)
              | Some b \<Rightarrow>
                 (case set_right hp2 nd (n_left (cells hp2 b)) of
                    Inl f \<Rightarrow> Inl f
                  | Inr hp3 \<Rightarrow>
                     (case set_left hp3 rt nd of
                        Inl f \<Rightarrow> Inl f
                      | Inr hp4 \<Rightarrow>
                         (case adjustHeight_h hp4 nd of
                            Inl f \<Rightarrow> Inl f
                          | Inr hp5 \<Rightarrow>
                             (case adjustHeight_h hp5 rt of
                                Inl f \<Rightarrow> Inl f
                              | Inr hp6 \<Rightarrow> Inr (rt, hp6))))))))"

text \<open>
  In the two double rotations \<open>n = n.clone()\<close> comes first; the right-hand side of
  \<open>n.left = n.left.rotateLeft()\<close> reads the child of the clone, which is the child of the
  original.
\<close>

definition rebalance_h :: "'a store \<Rightarrow> ref \<Rightarrow> fault + (ref \<times> 'a store)" where
  "rebalance_h hp n =
     (case n of
        None \<Rightarrow> Inr (None, hp)
      | Some a \<Rightarrow>
         (let b = balance_h hp n in
          if b < -1 \<and> balance_h hp (n_left (cells hp a)) \<le> 0 then rotateRight_h hp n
          else if b > 1 \<and> balance_h hp (n_right (cells hp a)) \<ge> 0 then rotateLeft_h hp n
          else if b < -1 \<and> balance_h hp (n_left (cells hp a)) > 0 then
            (let (n1, hp1) = clone_h hp n in
             (case rotateLeft_h hp1 (n_left (cells hp a)) of
                Inl f \<Rightarrow> Inl f
              | Inr (l', hp2) \<Rightarrow>
                 (case set_left hp2 n1 l' of
                    Inl f \<Rightarrow> Inl f
                  | Inr hp3 \<Rightarrow> rotateRight_h hp3 n1)))
          else if b > 1 \<and> balance_h hp (n_right (cells hp a)) < 0 then
            (let (n1, hp1) = clone_h hp n in
             (case rotateRight_h hp1 (n_right (cells hp a)) of
                Inl f \<Rightarrow> Inl f
              | Inr (r', hp2) \<Rightarrow>
                 (case set_right hp2 n1 r' of
                    Inl f \<Rightarrow> Inl f
                  | Inr hp3 \<Rightarrow> rotateLeft_h hp3 n1)))
          else if b > 1 \<or> b < -1 then Inl (Panicked BalancingError)
          else Inr (n, hp)))"

definition adjust_rebalance_h :: "'a store \<Rightarrow> ref \<Rightarrow> fault + (ref \<times> 'a store)" where
  "adjust_rebalance_h hp rt =
     (case adjustHeight_h hp rt of Inl f \<Rightarrow> Inl f | Inr hp1 \<Rightarrow> rebalance_h hp1 rt)"

text \<open>
  The part of \<open>Insert\<close>, \<open>Update\<close> and \<open>Delete\<close> after the recursive call has changed a
  subtree: the child \<open>m\<close> is stored in the clone \<open>rt\<close> of \<open>n\<close>, then the height of the
  clone is adjusted and the clone rebalanced.
\<close>

definition relink_left :: "'a store \<Rightarrow> ref \<Rightarrow> ref \<Rightarrow> fault + (ref \<times> 'a store)" where
  "relink_left hp rt m =
     (case set_left hp rt m of Inl f \<Rightarrow> Inl f | Inr hp1 \<Rightarrow> adjust_rebalance_h hp1 rt)"

definition relink_right :: "'a store \<Rightarrow> ref \<Rightarrow> ref \<Rightarrow> fault + (ref \<times> 'a store)" where
  "relink_right hp rt m =
     (case set_right hp rt m of Inl f \<Rightarrow> Inl f | Inr hp1 \<Rightarrow> adjust_rebalance_h hp1 rt)"

fun Insert_h :: "nat \<Rightarrow> 'a compare \<Rightarrow> 'a store \<Rightarrow> ref \<Rightarrow> 'a \<Rightarrow>
    fault + ((ref \<times> 'a option) \<times> 'a store)" where
  "Insert_h 0 cmp hp n x = Inl OutOfFuel"
| "Insert_h (Suc k) cmp hp None x =
     (let (rt, hp1) = alloc hp \<lparr>n_value = x, n_left = None, n_right = None, n_h = 1\<rparr>
      in Inr ((rt, None), hp1))"
| "Insert_h (Suc k) cmp hp (Some a) x =
     (if cmp x (n_value (cells hp a)) < 0 then
        (case Insert_h k cmp hp (n_left (cells hp a)) x of
           Inl f \<Rightarrow> Inl f
         | Inr ((m, Some existing), hp1) \<Rightarrow> Inr ((Some a, Some existing), hp1)
         | Inr ((m, None), hp1) \<Rightarrow>
            (let (rt, hp2) = clone_h hp1 (Some a) in
             (case relink_left hp2 rt m of
                Inl f \<Rightarrow> Inl f
              | Inr (rt', hp3) \<Rightarrow> Inr ((rt', None), hp3))))
      else if cmp x (n_value (cells hp a)) > 0 then
        (case Insert_h k cmp hp (n_right (cells hp a)) x of
           Inl f \<Rightarrow> Inl f
         | Inr ((m, Some existing), hp1) \<Rightarrow> Inr ((Some a, Some existing), hp1)
         | Inr ((m, None), hp1) \<Rightarrow>
            (let (rt, hp2) = clone_h hp1 (Some a) in
             (case relink_right hp2 rt m of
                Inl f \<Rightarrow> Inl f
              | Inr (rt', hp3) \<Rightarrow> Inr ((rt', None), hp3))))
      else Inr ((Some a, Some (n_value (cells hp a))), hp))"

fun Update_h :: "nat \<Rightarrow> 'a compare \<Rightarrow> 'a store \<Rightarrow> ref \<Rightarrow> 'a \<Rightarrow>
    fault + ((ref \<times> 'a option) \<times> 'a store)" where
  "Update_h 0 cmp hp n x = Inl OutOfFuel"
| "Update_h (Suc k) cmp hp None x =
     (let (rt, hp1) = alloc hp \<lparr>n_value = x, n_left = None, n_right = None, n_h = 1\<rparr>
      in Inr ((rt, None), hp1))"
| "Update_h (Suc k) cmp hp (Some a) x =
     (let (rt, hp1) = clone_h hp (Some a) in
      if cmp x (n_value (cells hp1 a)) < 0 then
        (case Update_h k cmp hp1 (n_left (cells hp1 a)) x of
           Inl f \<Rightarrow> Inl f
         | Inr ((m, prev), hp2) \<Rightarrow>
            (case relink_left hp2 rt m of
               Inl f \<Rightarrow> Inl f
             | Inr (rt', hp3) \<Rightarrow> Inr ((rt', None), hp3)))
      else if cmp x (n_value (cells hp1 a)) > 0 then
        (case Insert_h k cmp hp1 (n_right (cells hp1 a)) x of
           Inl f \<Rightarrow> Inl f
         | Inr ((m, prev), hp2) \<Rightarrow>
            (case relink_right hp2 rt m of
               Inl f \<Rightarrow> Inl f
             | Inr (rt', hp3) \<Rightarrow> Inr ((rt', None), hp3)))
      else
        (case set_value hp1 rt x of
           Inl f \<Rightarrow> Inl f
         | Inr hp2 \<Rightarrow>
            (case adjust_rebalance_h hp2 rt of
               Inl f \<Rightarrow> Inl f
             | Inr (rt', hp3) \<Rightarrow> Inr ((rt', None), hp3))))"

fun Max_h :: "nat \<Rightarrow> 'a store \<Rightarrow> ref \<Rightarrow> fault + 'a option" where
  "Max_h 0 hp n = Inl OutOfFuel"
| "Max_h (Suc k) hp None = Inr None"
| "Max_h (Suc k) hp (Some a) =
     (if n_right (cells hp a) \<noteq> None then Max_h k hp (n_right (cells hp a))
      else Inr (Some (n_value (cells hp a))))"

text \<open>
  In \<open>destroy\<close>, \<open>new(node)\<close> and the assignment \<open>root.value = m\<close> that follows it are one
  allocation. With one child \<open>destroy\<close> returns \<open>n.left\<close> or \<open>n.right\<close>, the child itself and
  not a clone, and \<open>Delete\<close> calls \<open>root.adjustHeight()\<close> on what \<open>destroy\<close> returned.
\<close>

fun Delete_h :: "nat \<Rightarrow> 'a compare \<Rightarrow> 'a store \<Rightarrow> ref \<Rightarrow> 'a \<Rightarrow>
    fault + ((ref \<times> 'a option) \<times> 'a store)"
  and destroy_h :: "nat \<Rightarrow> 'a compare \<Rightarrow> 'a store \<Rightarrow> ref \<Rightarrow> fault + (ref \<times> 'a store)" where
  "Delete_h 0 cmp hp n x = Inl OutOfFuel"
| "Delete_h (Suc k) cmp hp None x = Inr ((None, None), hp)"
| "Delete_h (Suc k) cmp hp (Some a) x =
     (if cmp x (n_value (cells hp a)) < 0 then
        (case Delete_h k cmp hp (n_left (cells hp a)) x of
           Inl f \<Rightarrow> Inl f
         | Inr ((m, None), hp1) \<Rightarrow> Inr ((Some a, None), hp1)
         | Inr ((m, Some existed), hp1) \<Rightarrow>
            (let (rt, hp2) = clone_h hp1 (Some a) in
             (case relink_left hp2 rt m of
                Inl f \<Rightarrow> Inl f
              | Inr (rt', hp3) \<Rightarrow> Inr ((rt', Some existed), hp3))))
      else if cmp x (n_value (cells hp a)) > 0 then
        (case Delete_h k cmp hp (n_right (cells hp a)) x of
           Inl f \<Rightarrow> Inl f
         | Inr ((m, None), hp1) \<Rightarrow> Inr ((Some a, None), hp1)
         | Inr ((m, Some existed), hp1) \<Rightarrow>
            (let (rt, hp2) = clone_h hp1 (Some a) in
             (case relink_right hp2 rt m of
                Inl f \<Rightarrow> Inl f
              | Inr (rt', hp3) \<Rightarrow> Inr ((rt', Some existed), hp3))))
      else
        (case destroy_h k cmp hp (Some a) of
           Inl f \<Rightarrow> Inl f
         | Inr (None, hp1) \<Rightarrow> Inr ((None, Some (n_value (cells hp1 a))), hp1)
         | Inr (Some b, hp1) \<Rightarrow>
            (case adjust_rebalance_h hp1 (Some b) of
               Inl f \<Rightarrow> Inl f
             | Inr (rt', hp2) \<Rightarrow> Inr ((rt', Some (n_value (cells hp1 a))), hp2))))"
| "destroy_h 0 cmp hp n = Inl OutOfFuel"
| "destroy_h (Suc k) cmp hp None = Inl (Panicked NilDereference)"
| "destroy_h (Suc k) cmp hp (Some a) =
     (if n_left (cells hp a) \<noteq> None \<and> n_right (cells hp a) \<noteq> None then
        (case Max_h k hp (n_left (cells hp a)) of
           Inl f \<Rightarrow> Inl f
         | Inr None \<Rightarrow> Inl (Panicked NilDereference)
         | Inr (Some m) \<Rightarrow>
            (let (rt, hp1) = alloc hp \<lparr>n_value = m, n_left = None, n_right = None, n_h = 0\<rparr>
             in (case Delete_h k cmp hp1 (n_left (cells hp1 a)) m of
                   Inl f \<Rightarrow> Inl f
                 | Inr ((l', existed), hp2) \<Rightarrow>
                    (case set_left hp2 rt l' of
                       Inl f \<Rightarrow> Inl f
                     | Inr hp3 \<Rightarrow>
                        (case set_right hp3 rt (n_right (cells hp3 a)) of
                           Inl f \<Rightarrow> Inl f
                         | Inr hp4 \<Rightarrow> Inr (rt, hp4))))))
      else if n_left (cells hp a) \<noteq> None then Inr (n_left (cells hp a), hp)
      else if n_right (cells hp a) \<noteq> None then Inr (n_right (cells hp a), hp)
      else Inr (None, hp))"

text \<open>
  \<open>tree_in A hp p t\<close>: the nodes reachable from \<open>p\<close> in the store \<open>hp\<close> have their
  addresses in \<open>A\<close> and form the tree \<open>t\<close>, field by field; \<open>tree_at\<close> takes all allocated
  addresses for \<open>A\<close>. \<open>unchanged hp hp'\<close>: every node allocated in \<open>hp\<close> has the same
  contents in \<open>hp'\<close>.
\<close>

fun tree_in :: "nat set \<Rightarrow> 'a store \<Rightarrow> ref \<Rightarrow> 'a node \<Rightarrow> bool" where
  "tree_in A hp p NilNode = (p = None)"
| "tree_in A hp p (Node v l r hh) =
     (case p of
        None \<Rightarrow> False
      | Some a \<Rightarrow>
          a \<in> A \<and> n_value (cells hp a) = v \<and> n_h (cells hp a) = hh \<and>
          tree_in A hp (n_left (cells hp a)) l \<and> tree_in A hp (n_right (cells hp a)) r)"

definition tree_at :: "'a store \<Rightarrow> ref \<Rightarrow> 'a node \<Rightarrow> bool" where
  "tree_at hp p t = tree_in {..<next_free hp} hp p t"

definition unchanged :: "'a store \<Rightarrow> 'a store \<Rightarrow> bool" where
  "unchanged hp hp' \<longleftrightarrow> next_free hp \<le> next_free hp' \<and> (\<forall>a<next_free hp. cells hp' a = cells hp a)"

definition empty_store :: "'a \<Rightarrow> 'a store" where
  "empty_store d = \<lparr>cells = (\<lambda>a. \<lparr>n_value = d, n_left = None, n_right = None, n_h = 0\<rparr>), next_free = 0\<rparr>"

text \<open>
  \<open>node_over B hp a t\<close>: the node at address \<open>a\<close> has the fields of the root of \<open>t\<close>, and
  its children are trees on addresses in \<open>B\<close>, where \<open>a\<close> itself does not occur: a clone
  that the operation owns and may still write to.
\<close>

definition node_over :: "nat set \<Rightarrow> 'a store \<Rightarrow> nat \<Rightarrow> 'a node \<Rightarrow> bool" where
  "node_over B hp a t \<longleftrightarrow>
     a \<notin> B \<and> a < next_free hp \<and> B \<subseteq> {..<next_free hp} \<and>
     (case t of
        NilNode \<Rightarrow> False
      | Node v l r hh \<Rightarrow>
          n_value (cells hp a) = v \<and> n_h (cells hp a) = hh \<and>
          tree_in B hp (n_left (cells hp a)) l \<and> tree_in B hp (n_right (cells hp a)) r)"

section \<open>Queries on the store\<close>

text \<open>
  The operations that only read, on the store. They return their answer and leave the
  store as it is.
\<close>

fun Size_h :: "nat \<Rightarrow> 'a store \<Rightarrow> ref \<Rightarrow> fault + int" where
  "Size_h 0 hp n = Inl OutOfFuel"
| "Size_h (Suc k) hp None = Inr 0"
| "Size_h (Suc k) hp (Some a) =
     (case Size_h k hp (n_left (cells hp a)) of
        Inl f \<Rightarrow> Inl f
      | Inr sl \<Rightarrow>
         (case Size_h k hp (n_right (cells hp a)) of
            Inl f \<Rightarrow> Inl f
          | Inr sr \<Rightarrow> Inr (1 + sl + sr)))"

fun Min_h :: "nat \<Rightarrow> 'a store \<Rightarrow> ref \<Rightarrow> fault + 'a option" where
  "Min_h 0 hp n = Inl OutOfFuel"
| "Min_h (Suc k) hp None = Inr None"
| "Min_h (Suc k) hp (Some a) =
     (if n_left (cells hp a) \<noteq> None then Min_h k hp (n_left (cells hp a))
      else Inr (Some (n_value (cells hp a))))"

fun Search_h :: "nat \<Rightarrow> 'a compare \<Rightarrow> 'a store \<Rightarrow> ref \<Rightarrow> 'a \<Rightarrow> fault + 'a option" where
  "Search_h 0 cmp hp n x = Inl OutOfFuel"
| "Search_h (Suc k) cmp hp None x = Inr None"
| "Search_h (Suc k) cmp hp (Some a) x =
     (if cmp x (n_value (cells hp a)) < 0 then Search_h k cmp hp (n_left (cells hp a)) x
      else if cmp x (n_value (cells hp a)) > 0 then Search_h k cmp hp (n_right (cells hp a)) x
      else Inr (Some (n_value (cells hp a))))"

fun Predcessor_h :: "nat \<Rightarrow> 'a compare \<Rightarrow> 'a store \<Rightarrow> ref \<Rightarrow> 'a \<Rightarrow> fault + 'a option" where
  "Predcessor_h 0 cmp hp n x = Inl OutOfFuel"
| "Predcessor_h (Suc k) cmp hp None x = Inr None"
| "Predcessor_h (Suc k) cmp hp (Some a) x =
     (if cmp x (n_value (cells hp a)) < 0 then Predcessor_h k cmp hp (n_left (cells hp a)) x
      else if cmp x (n_value (cells hp a)) > 0 then
        (case Predcessor_h k cmp hp (n_right (cells hp a)) x of
           Inl f \<Rightarrow> Inl f
         | Inr None \<Rightarrow> Inr (Some (n_value (cells hp a)))
         | Inr (Some q) \<Rightarrow> Inr (Some q))
      else Max_h k hp (n_left (cells hp a)))"

fun Successor_h :: "nat \<Rightarrow> 'a compare \<Rightarrow> 'a store \<Rightarrow> ref \<Rightarrow> 'a \<Rightarrow> fault + 'a option" where
  "Successor_h 0 cmp hp n x = Inl OutOfFuel"
| "Successor_h (Suc k) cmp hp None x = Inr None"
| "Successor_h (Suc k) cmp hp (Some a) x =
     (if cmp x (n_value (cells hp a)) < 0 then
        (case Successor_h k cmp hp (n_left (cells hp a)) x of
           Inl f \<Rightarrow> Inl f
         | Inr None \<Rightarrow> Inr (Some (n_value (cells hp a)))
         | Inr (Some q) \<Rightarrow> Inr (Some q))
      else if cmp x (n_value (cells hp a)) > 0 then
        Successor_h k cmp hp (n_right (cells hp a)) x
      else Min_h k hp (n_right (cells hp a)))"

fun InOrder_h :: "nat \<Rightarrow> 'a store \<Rightarrow> ref \<Rightarrow> ('a, 's) visitor \<Rightarrow> 's \<Rightarrow> fault + 's" where
  "InOrder_h 0 hp n fn s = Inl OutOfFuel"
| "InOrder_h (Suc k) hp None fn s = Inr s"
| "InOrder_h (Suc k) hp (Some a) fn s =
     (case InOrder_h k hp (n_left (cells hp a)) fn s of
        Inl f \<Rightarrow> Inl f
      | Inr s1 \<Rightarrow>
          InOrder_h k hp (n_right (cells hp a)) fn (snd (fn (n_value (cells hp a)) s1)))"

fun PreOrder_h :: "nat \<Rightarrow> 'a store \<Rightarrow> ref \<Rightarrow> ('a, 's) visitor \<Rightarrow> 's \<Rightarrow> fault + 's" where
  "PreOrder_h 0 hp n fn s = Inl OutOfFuel"
| "PreOrder_h (Suc k) hp None fn s = Inr s"
| "PreOrder_h (Suc k) hp (Some a) fn s =
     (case PreOrder_h k hp (n_left (cells hp a)) fn (snd (fn (n_value (cells hp a)) s)) of
        Inl f \<Rightarrow> Inl f
      | Inr s1 \<Rightarrow> PreOrder_h k hp (n_right (cells hp a)) fn s1)"

fun PostOrder_h :: "nat \<Rightarrow> 'a store \<Rightarrow> ref \<Rightarrow> ('a, 's) visitor \<Rightarrow> 's \<Rightarrow> fault + 's" where
  "PostOrder_h 0 hp n fn s = Inl OutOfFuel"
| "PostOrder_h (Suc k) hp None fn s = Inr s"
| "PostOrder_h (Suc k) hp (Some a) fn s =
     (case PostOrder_h k hp (n_left (cells hp a)) fn s of
        Inl f \<Rightarrow> Inl f
      | Inr s1 \<Rightarrow>
         (case PostOrder_h k hp (n_right (cells hp a)) fn s1 of
            Inl f \<Rightarrow> Inl f
          | Inr s2 \<Rightarrow> Inr (snd (fn (n_value (cells hp a)) s2))))"

text \<open>
  \<open>reads_as cmp hp p t\<close>: with fuel above the number of nodes of \<open>t\<close>, every query on the
  store at \<open>p\<close> returns what the query on the value \<open>t\<close> returns; \<open>traverses_as\<close> says the
  same of the three traversals with the visitor \<open>fn\<close>.
\<close>

definition reads_as :: "'a compare \<Rightarrow> 'a store \<Rightarrow> ref \<Rightarrow> 'a node \<Rightarrow> bool" where
  "reads_as cmp hp p t \<longleftrightarrow>
     (\<forall>k>size t.
        Size_h k hp p = Inr (Size t) \<and>
        Min_h k hp p = Inr (Min_node t) \<and>
        Max_h k hp p = Inr (Max_node t) \<and>
        (\<forall>x. Search_h k cmp hp p x = Inr (Search cmp t x) \<and>
             Predcessor_h k cmp hp p x = Inr (Predcessor cmp t x) \<and>
             Successor_h k cmp hp p x = Inr (Successor cmp t x)))"

definition traverses_as :: "'a store \<Rightarrow> ref \<Rightarrow> 'a node \<Rightarrow> ('a, 's) visitor \<Rightarrow> bool" where
  "traverses_as hp p t fn \<longleftrightarrow>
     (\<forall>k>size t. \<forall>s.
        InOrder_h k hp p fn s = Inr (InOrder t fn s) \<and>
        PreOrder_h k hp p fn s = Inr (PreOrder t fn s) \<and>
        PostOrder_h k hp p fn s = Inr (PostOrder t fn s))"

section \<open>Concrete inputs\<close>

text \<open>
  A store for concrete runs: the nodes that \<open>Insert\<close> of \<open>(1, a)\<close> and then of \<open>(2, b)\<close>
  allocates from the empty store, the root of the tree at address 2.
\<close>

definition store12 :: "KV store" where
  "store12 = \<lparr>cells = (\<lambda>a. \<lparr>n_value = (0, []), n_left = None, n_right = None, n_h = 0\<rparr>)
      (0 := \<lparr>n_value = (1, ''a''), n_left = None, n_right = None, n_h = 1\<rparr>,
       1 := \<lparr>n_value = (2, ''b''), n_left = None, n_right = None, n_h = 1\<rparr>,
       2 := \<lparr>n_value = (1, ''a''), n_left = None, n_right = Some 1, n_h = 2\<rparr>),
     next_free = 3\<rparr>"

section \<open>Evaluation on concrete trees\<close>

lemmas eval_simps = Tree_Insert_def Tree_Update_def Tree_Delete_def empty_Tree_def
  adjust_rebalance_def KV_Compare_def recording_def Let_def
  Tree_InOrder_def Tree_PreOrder_def Tree_PostOrder_def Tree_Size_def

lemma consistent_KV_Compare: "consistent KV_Compare"
  by (auto simp: consistent_def KV_Compare_def)

section \<open>The comparison contract\<close>

lemma cmp_flip: "consistent cmp \<Longrightarrow> (cmp x y < 0) = (0 < cmp y x)"
  by (simp add: consistent_def)

lemma cmp_refl: "consistent cmp \<Longrightarrow> cmp x x = 0"
  using cmp_flip[of cmp x x] by auto

lemma cmp_sym0: "consistent cmp \<Longrightarrow> cmp x y = 0 \<Longrightarrow> cmp y x = 0"
  using cmp_flip[of cmp x y] cmp_flip[of cmp y x] by auto

lemma cmp_le_trans: "consistent cmp \<Longrightarrow> cmp x y \<le> 0 \<Longrightarrow> cmp y z \<le> 0 \<Longrightarrow> cmp x z \<le> 0"
  unfolding consistent_def by blast

lemma cmp_le_flip: "consistent cmp \<Longrightarrow> (cmp x y \<le> 0) = (0 \<le> cmp y x)"
  using cmp_flip[of cmp x y] cmp_flip[of cmp y x] by auto

lemma cmp_lt_le_trans:
  assumes "consistent cmp" "cmp x y < 0" "cmp y z \<le> 0" shows "cmp x z < 0"
proof (rule ccontr)
  assume "\<not> cmp x z < 0"
  then have "cmp z x \<le> 0" using cmp_le_flip[OF assms(1), of z x] by simp
  with assms(1,3) have "cmp y x \<le> 0" by (blast intro: cmp_le_trans)
  with assms(2) cmp_flip[OF assms(1), of x y] show False by auto
qed

lemma cmp_le_lt_trans:
  assumes "consistent cmp" "cmp x y \<le> 0" "cmp y z < 0" shows "cmp x z < 0"
proof (rule ccontr)
  assume "\<not> cmp x z < 0"
  then have "cmp z x \<le> 0" using cmp_le_flip[OF assms(1), of z x] by simp
  with assms(1,2) have "cmp z y \<le> 0" by (blast intro: cmp_le_trans)
  with assms(3) cmp_flip[OF assms(1), of y z] show False by auto
qed

lemma cmp_lt_trans: "consistent cmp \<Longrightarrow> cmp x y < 0 \<Longrightarrow> cmp y z < 0 \<Longrightarrow> cmp x z < 0"
  using cmp_lt_le_trans[of cmp x y z] by simp

lemma cmp_lt_irrefl: "consistent cmp \<Longrightarrow> cmp x y < 0 \<Longrightarrow> cmp y x < 0 \<Longrightarrow> False"
  using cmp_flip[of cmp y x] by auto

section \<open>Rebalancing\<close>

lemma avl_height_nonneg: "avl t \<Longrightarrow> 0 \<le> height t"
  by (induction t) auto

lemma avl_height_pos: "avl (Node v l r hh) \<Longrightarrow> 1 \<le> hh"
  using avl_height_nonneg[of l] avl_height_nonneg[of r] by auto

lemma avl_height_0: "avl t \<Longrightarrow> height t \<le> 0 \<Longrightarrow> t = NilNode"
  by (cases t) (use avl_height_pos in fastforce)+

lemma rebalance_left:
  assumes "avl l" "avl r" "height l = height r + 2"
  shows "\<exists>t'. adjust_rebalance (Node v l r hh) = Inr t' \<and> avl t' \<and>
           (height t' = height r + 2 \<or> height t' = height r + 3) \<and>
           items t' = items l @ v # items r"
proof -
  from assms avl_height_nonneg[of r] obtain lv ll lr lh where l: "l = Node lv ll lr lh"
    by (cases l) auto
  show ?thesis
  proof (cases "balance l \<le> 0")
    case True
    with assms l show ?thesis
      by (auto simp: adjust_rebalance_def max_def Let_def split: if_splits)
  next
    case False
    with assms l avl_height_nonneg[of ll] obtain rv rl rr rh where lr: "lr = Node rv rl rr rh"
      by (cases lr) auto
    with False assms l show ?thesis
      by (auto simp: adjust_rebalance_def max_def Let_def split: if_splits)
  qed
qed

lemma rebalance_right:
  assumes "avl l" "avl r" "height r = height l + 2"
  shows "\<exists>t'. adjust_rebalance (Node v l r hh) = Inr t' \<and> avl t' \<and>
           (height t' = height l + 2 \<or> height t' = height l + 3) \<and>
           items t' = items l @ v # items r"
proof -
  from assms avl_height_nonneg[of l] obtain rv rl rr rh where r: "r = Node rv rl rr rh"
    by (cases r) auto
  show ?thesis
  proof (cases "balance r \<ge> 0")
    case True
    with assms r show ?thesis
      by (auto simp: adjust_rebalance_def max_def Let_def split: if_splits)
  next
    case False
    with assms r avl_height_nonneg[of rr] obtain lv ll lr lh where rl: "rl = Node lv ll lr lh"
      by (cases rl) auto
    with False assms r show ?thesis
      by (auto simp: adjust_rebalance_def max_def Let_def split: if_splits)
  qed
qed

lemma rebalance_balanced:
  assumes "avl l" "avl r" "\<bar>height r - height l\<bar> \<le> 1"
  shows "adjust_rebalance (Node v l r hh) = Inr (Node v l r (max (height l) (height r) + 1))"
  using assms by (auto simp: adjust_rebalance_def Let_def)

lemma adjust_rebalance_ok:
  assumes "avl l" "avl r" "\<bar>height r - height l\<bar> \<le> 2"
  obtains t' where "adjust_rebalance (Node v l r hh) = Inr t'" "avl t'"
    "items t' = items l @ v # items r"
    "height t' = max (height l) (height r) + 1 \<or>
     (\<bar>height r - height l\<bar> = 2 \<and> height t' = max (height l) (height r))"
proof -
  consider "\<bar>height r - height l\<bar> \<le> 1" | "height l = height r + 2" | "height r = height l + 2"
    using assms(3) by linarith
  then show thesis
  proof cases
    case 1
    with assms rebalance_balanced[of l r v hh] that show ?thesis by auto
  next
    case 2
    with rebalance_left[OF assms(1,2), of v hh] that show ?thesis by (auto simp: max_def)
  next
    case 3
    with rebalance_right[OF assms(1,2), of v hh] that show ?thesis by (auto simp: max_def)
  qed
qed

lemma ordered_Node:
  "ordered cmp (Node v l r hh) \<longleftrightarrow>
     ordered cmp l \<and> ordered cmp r \<and> (\<forall>a\<in>set (items l). cmp a v < 0) \<and>
     (\<forall>b\<in>set (items r). cmp v b < 0) \<and>
     (\<forall>a\<in>set (items l). \<forall>b\<in>set (items r). cmp a b < 0)"
  by (auto simp: ordered_def sorted_wrt_append)

lemma ordered_NodeI:
  assumes "consistent cmp" "ordered cmp l" "ordered cmp r"
    "\<forall>a\<in>set (items l). cmp a v < 0" "\<forall>b\<in>set (items r). cmp v b < 0"
  shows "ordered cmp (Node v l r hh)"
  using assms by (auto simp: ordered_Node intro: cmp_lt_trans)

lemma ordered_items_eq: "items t' = items t \<Longrightarrow> ordered cmp t' = ordered cmp t"
  by (simp add: ordered_def)

lemma Insert_ok:
  assumes c: "consistent cmp"
  shows "avl t \<Longrightarrow> ordered cmp t \<Longrightarrow>
    \<exists>t' e. Insert cmp t x = Inr (t', e) \<and> avl t' \<and> ordered cmp t' \<and>
      (height t' = height t \<or> height t' = height t + 1) \<and>
      (case e of
         Some w \<Rightarrow> t' = t \<and> w \<in> set (items t) \<and> cmp x w = 0
       | None \<Rightarrow> (\<forall>y\<in>set (items t). cmp x y \<noteq> 0) \<and>
           set (items t') = insert x (set (items t)) \<and>
           length (items t') = Suc (length (items t)))"
proof (induction t)
  case NilNode
  then show ?case by (simp add: ordered_def)
next
  case (Node v l r hh)
  from Node.prems have al: "avl l" and ar: "avl r" and bal: "\<bar>height r - height l\<bar> \<le> 1"
    and hh: "hh = 1 + max (height l) (height r)" by auto
  from Node.prems have ol: "ordered cmp l" and orr: "ordered cmp r"
    and lv: "\<forall>a\<in>set (items l). cmp a v < 0" and vr: "\<forall>b\<in>set (items r). cmp v b < 0"
    by (auto simp: ordered_Node)
  consider (lt) "cmp x v < 0" | (gt) "cmp x v > 0" | (eq) "cmp x v = 0" by linarith
  then show ?case
  proof cases
    case lt
    from Node.IH(1)[OF al ol] obtain l' e where
      i: "Insert cmp l x = Inr (l', e)" and al': "avl l'" and ol': "ordered cmp l'"
      and hl': "height l' = height l \<or> height l' = height l + 1"
      and e: "case e of Some w \<Rightarrow> l' = l \<and> w \<in> set (items l) \<and> cmp x w = 0
              | None \<Rightarrow> (\<forall>y\<in>set (items l). cmp x y \<noteq> 0) \<and>
                  set (items l') = insert x (set (items l)) \<and>
                  length (items l') = Suc (length (items l))"
      by blast
    show ?thesis
    proof (cases e)
      case (Some w)
      with i e lt Node.prems show ?thesis by auto
    next
      case None
      from hl' bal have "\<bar>height r - height l'\<bar> \<le> 2" by linarith
      from adjust_rebalance_ok[OF al' ar this, of v hh] obtain t' where
        t': "adjust_rebalance (Node v l' r hh) = Inr t'" "avl t'"
          "items t' = items l' @ v # items r"
          "height t' = max (height l') (height r) + 1 \<or>
           (\<bar>height r - height l'\<bar> = 2 \<and> height t' = max (height l') (height r))"
        by blast
      from None e have sl': "set (items l') = insert x (set (items l))"
        and ne: "\<forall>y\<in>set (items l). cmp x y \<noteq> 0"
        and len: "length (items l') = Suc (length (items l))" by auto
      have "ordered cmp (Node v l' r hh)"
        using c ol' orr lv vr lt sl' by (intro ordered_NodeI) auto
      then have o: "ordered cmp t'" using t'(3) by (simp add: ordered_def)
      have xr: "\<forall>y\<in>set (items r). cmp x y < 0"
        using vr lt cmp_lt_trans[OF c] by blast
      have h: "height t' = hh \<or> height t' = hh + 1"
        using t'(4) hl' bal hh by (auto simp: max_def split: if_splits)
      show ?thesis
        using i None lt t' o h sl' ne len xr by auto
    qed
  next
    case gt
    then have vx: "cmp v x < 0" using cmp_flip[OF c, of v x] by simp
    from Node.IH(2)[OF ar orr] obtain r' e where
      i: "Insert cmp r x = Inr (r', e)" and ar': "avl r'" and or': "ordered cmp r'"
      and hr': "height r' = height r \<or> height r' = height r + 1"
      and e: "case e of Some w \<Rightarrow> r' = r \<and> w \<in> set (items r) \<and> cmp x w = 0
              | None \<Rightarrow> (\<forall>y\<in>set (items r). cmp x y \<noteq> 0) \<and>
                  set (items r') = insert x (set (items r)) \<and>
                  length (items r') = Suc (length (items r))"
      by blast
    show ?thesis
    proof (cases e)
      case (Some w)
      with i e gt Node.prems show ?thesis by auto
    next
      case None
      from hr' bal have "\<bar>height r' - height l\<bar> \<le> 2" by linarith
      from adjust_rebalance_ok[OF al ar' this, of v hh] obtain t' where
        t': "adjust_rebalance (Node v l r' hh) = Inr t'" "avl t'"
          "items t' = items l @ v # items r'"
          "height t' = max (height l) (height r') + 1 \<or>
           (\<bar>height r' - height l\<bar> = 2 \<and> height t' = max (height l) (height r'))"
        by blast
      from None e have sr': "set (items r') = insert x (set (items r))"
        and ne: "\<forall>y\<in>set (items r). cmp x y \<noteq> 0"
        and len: "length (items r') = Suc (length (items r))" by auto
      have "ordered cmp (Node v l r' hh)"
        using c ol or' lv vr vx sr' by (intro ordered_NodeI) auto
      then have o: "ordered cmp t'" using t'(3) by (simp add: ordered_def)
      have xl: "\<forall>y\<in>set (items l). cmp y x < 0"
        using lv vx cmp_lt_trans[OF c] by blast
      then have xl': "\<forall>y\<in>set (items l). cmp x y \<noteq> 0"
        using cmp_flip[OF c] by fastforce
      have h: "height t' = hh \<or> height t' = hh + 1"
        using t'(4) hr' bal hh by (auto simp: max_def split: if_splits)
      show ?thesis
        using i None gt t' o h sr' ne len xl' by auto
    qed
  next
    case eq
    with Node.prems show ?thesis by auto
  qed
qed

lemma cmp_eq_lt_trans: "consistent cmp \<Longrightarrow> cmp x y = 0 \<Longrightarrow> cmp y z < 0 \<Longrightarrow> cmp x z < 0"
  using cmp_le_lt_trans[of cmp x y z] by simp

lemma cmp_lt_eq_trans: "consistent cmp \<Longrightarrow> cmp x y < 0 \<Longrightarrow> cmp y z = 0 \<Longrightarrow> cmp x z < 0"
  using cmp_lt_le_trans[of cmp x y z] by simp

lemma Insert_sub:
  assumes "consistent cmp" "avl t" "ordered cmp t"
  obtains t' e where "Insert cmp t x = Inr (t', e)" "avl t'" "ordered cmp t'"
    "height t' = height t \<or> height t' = height t + 1"
    "set (items t') \<subseteq> insert x (set (items t))"
proof -
  from Insert_ok[OF assms, of x] obtain t' e where
    *: "Insert cmp t x = Inr (t', e)" "avl t'" "ordered cmp t'"
      "height t' = height t \<or> height t' = height t + 1"
    and e: "case e of
         Some w \<Rightarrow> t' = t \<and> w \<in> set (items t) \<and> cmp x w = 0
       | None \<Rightarrow> (\<forall>y\<in>set (items t). cmp x y \<noteq> 0) \<and>
           set (items t') = insert x (set (items t)) \<and>
           length (items t') = Suc (length (items t))"
    by blast
  from e have "set (items t') \<subseteq> insert x (set (items t))"
    by (cases e) auto
  with * that show thesis by blast
qed

lemma Update_ok:
  assumes c: "consistent cmp"
  shows "avl t \<Longrightarrow> ordered cmp t \<Longrightarrow>
    \<exists>t'. Update cmp t x = Inr (t', None) \<and> avl t' \<and> ordered cmp t' \<and>
      (height t' = height t \<or> height t' = height t + 1) \<and>
      set (items t') \<subseteq> insert x (set (items t))"
proof (induction t)
  case NilNode
  then show ?case by (simp add: ordered_def)
next
  case (Node v l r hh)
  from Node.prems have al: "avl l" and ar: "avl r" and bal: "\<bar>height r - height l\<bar> \<le> 1"
    and hh: "hh = 1 + max (height l) (height r)" by auto
  from Node.prems have ol: "ordered cmp l" and orr: "ordered cmp r"
    and lv: "\<forall>a\<in>set (items l). cmp a v < 0" and vr: "\<forall>b\<in>set (items r). cmp v b < 0"
    by (auto simp: ordered_Node)
  consider (lt) "cmp x v < 0" | (gt) "cmp x v > 0" | (eq) "cmp x v = 0" by linarith
  then show ?case
  proof cases
    case lt
    from Node.IH(1)[OF al ol] obtain l' where
      i: "Update cmp l x = Inr (l', None)" and al': "avl l'" and ol': "ordered cmp l'"
      and hl': "height l' = height l \<or> height l' = height l + 1"
      and sl': "set (items l') \<subseteq> insert x (set (items l))"
      by blast
    from hl' bal have "\<bar>height r - height l'\<bar> \<le> 2" by linarith
    from adjust_rebalance_ok[OF al' ar this, of v hh] obtain t' where
      t': "adjust_rebalance (Node v l' r hh) = Inr t'" "avl t'"
        "items t' = items l' @ v # items r"
        "height t' = max (height l') (height r) + 1 \<or>
         (\<bar>height r - height l'\<bar> = 2 \<and> height t' = max (height l') (height r))"
      by blast
    have "ordered cmp (Node v l' r hh)"
      using c ol' orr lv vr lt sl' by (intro ordered_NodeI) auto
    then have o: "ordered cmp t'" using t'(3) by (simp add: ordered_def)
    have h: "height t' = hh \<or> height t' = hh + 1"
      using t'(4) hl' bal hh by (auto simp: max_def split: if_splits)
    show ?thesis
      using i lt t' o h sl' by auto
  next
    case gt
    then have vx: "cmp v x < 0" using cmp_flip[OF c, of v x] by simp
    from Insert_sub[OF c ar orr, of x] obtain r' e where
      i: "Insert cmp r x = Inr (r', e)" and ar': "avl r'" and or': "ordered cmp r'"
      and hr': "height r' = height r \<or> height r' = height r + 1"
      and sr': "set (items r') \<subseteq> insert x (set (items r))"
      by blast
    from hr' bal have "\<bar>height r' - height l\<bar> \<le> 2" by linarith
    from adjust_rebalance_ok[OF al ar' this, of v hh] obtain t' where
      t': "adjust_rebalance (Node v l r' hh) = Inr t'" "avl t'"
        "items t' = items l @ v # items r'"
        "height t' = max (height l) (height r') + 1 \<or>
         (\<bar>height r' - height l\<bar> = 2 \<and> height t' = max (height l) (height r'))"
      by blast
    have "ordered cmp (Node v l r' hh)"
      using c ol or' lv vr vx sr' by (intro ordered_NodeI) auto
    then have o: "ordered cmp t'" using t'(3) by (simp add: ordered_def)
    have h: "height t' = hh \<or> height t' = hh + 1"
      using t'(4) hr' bal hh by (auto simp: max_def split: if_splits)
    show ?thesis
      using i gt t' o h sr' by auto
  next
    case eq
    then have vx: "cmp v x = 0" by (rule cmp_sym0[OF c])
    from rebalance_balanced[OF al ar bal, of x hh]
    have t': "adjust_rebalance (Node x l r hh) = Inr (Node x l r hh)" using hh by simp
    have lx: "\<forall>a\<in>set (items l). cmp a x < 0"
      using lv vx cmp_lt_eq_trans[OF c] by blast
    have xr: "\<forall>b\<in>set (items r). cmp x b < 0"
      using vr eq cmp_eq_lt_trans[OF c] by blast
    have "ordered cmp (Node x l r hh)"
      using c ol orr lx xr by (intro ordered_NodeI) auto
    with eq t' Node.prems show ?thesis by auto
  qed
qed

lemma items_Nil_iff: "items t = [] \<longleftrightarrow> t = NilNode"
  by (cases t) auto

lemma Max_node_last: "t \<noteq> NilNode \<Longrightarrow> Max_node t = Some (last (items t))"
  by (induction t) (auto simp: items_Nil_iff)

lemma filter_last_sorted:
  assumes "consistent cmp" "sorted_wrt (\<lambda>a b. cmp a b < 0) xs" "xs \<noteq> []"
  shows "filter (\<lambda>y. cmp (last xs) y \<noteq> 0) xs = butlast xs"
proof -
  from assms(3) obtain ys z where xs: "xs = ys @ [z]" by (metis append_butlast_last_id)
  with assms(2) have "\<forall>y\<in>set ys. cmp y z < 0" by (auto simp: sorted_wrt_append)
  then have "\<forall>y\<in>set ys. cmp z y \<noteq> 0" using cmp_flip[OF assms(1)] by fastforce
  then show ?thesis using xs cmp_refl[OF assms(1), of z] by simp
qed

lemma ordered_filter: "ordered cmp t \<Longrightarrow> items t' = filter P (items t) \<Longrightarrow> ordered cmp t'"
  by (simp add: ordered_def sorted_wrt_filter)

lemma Delete_destroy_ok:
  shows "consistent cmp \<Longrightarrow> avl t \<Longrightarrow> ordered cmp t \<Longrightarrow>
     \<exists>t' e. Delete cmp t x = Inr (t', e) \<and> avl t' \<and>
       (height t' = height t \<or> height t' = height t - 1) \<and>
       items t' = filter (\<lambda>y. cmp x y \<noteq> 0) (items t) \<and>
       (case e of None \<Rightarrow> t' = t
        | Some w \<Rightarrow> w \<in> set (items t) \<and> cmp x w = 0 \<and>
            Suc (length (items t')) = length (items t))"
  and "consistent cmp \<Longrightarrow> avl t \<Longrightarrow> ordered cmp t \<Longrightarrow>
     \<forall>v l r hh. t = Node v l r hh \<longrightarrow>
       (\<exists>t'. destroy cmp t = Inr t' \<and> items t' = items l @ items r \<and>
          (case t' of NilNode \<Rightarrow> hh = 1
           | Node m a b h' \<Rightarrow>
               (\<exists>t''. adjust_rebalance t' = Inr t'' \<and> avl t'' \<and> items t'' = items t' \<and>
                  (height t'' = hh \<or> height t'' = hh - 1))))"
proof (induction cmp t x and cmp t rule: Delete_destroy.induct)
  case (1 cmp x)
  then show ?case by simp
next
  case (2 cmp v l r hh x)
  note c = \<open>consistent cmp\<close>
  from "2.prems" have al: "avl l" and ar: "avl r" and bal: "\<bar>height r - height l\<bar> \<le> 1"
    and hh: "hh = 1 + max (height l) (height r)" by auto
  from "2.prems" have ol: "ordered cmp l" and orr: "ordered cmp r"
    and lv: "\<forall>a\<in>set (items l). cmp a v < 0" and vr: "\<forall>b\<in>set (items r). cmp v b < 0"
    by (auto simp: ordered_Node)
  consider (lt) "cmp x v < 0" | (gt) "cmp x v > 0" | (eq) "cmp x v = 0" by linarith
  then show ?case
  proof cases
    case lt
    have xr: "\<forall>b\<in>set (items r). cmp x b \<noteq> 0"
      using vr lt cmp_lt_trans[OF c] by fastforce
    from "2.IH"(1)[OF lt c al ol] obtain l' e where
      d: "Delete cmp l x = Inr (l', e)" and al': "avl l'"
      and hl': "height l' = height l \<or> height l' = height l - 1"
      and il': "items l' = filter (\<lambda>y. cmp x y \<noteq> 0) (items l)"
      and e: "case e of None \<Rightarrow> l' = l
        | Some w \<Rightarrow> w \<in> set (items l) \<and> cmp x w = 0 \<and>
            Suc (length (items l')) = length (items l)"
      by blast
    show ?thesis
    proof (cases e)
      case None
      with d e il' lt xr "2.prems" show ?thesis by auto
    next
      case (Some w)
      from hl' bal have "\<bar>height r - height l'\<bar> \<le> 2" by linarith
      from adjust_rebalance_ok[OF al' ar this, of v hh] obtain t' where
        t': "adjust_rebalance (Node v l' r hh) = Inr t'" "avl t'"
          "items t' = items l' @ v # items r"
          "height t' = max (height l') (height r) + 1 \<or>
           (\<bar>height r - height l'\<bar> = 2 \<and> height t' = max (height l') (height r))"
        by blast
      have h: "height t' = hh \<or> height t' = hh - 1"
        using t'(4) hl' bal hh by (auto simp: max_def split: if_splits)
      show ?thesis
        using d Some e lt t' h il' xr by auto
    qed
  next
    case gt
    then have vx: "cmp v x < 0" using cmp_flip[OF c, of v x] by simp
    have "\<forall>a\<in>set (items l). cmp a x < 0"
      using lv vx cmp_lt_trans[OF c] by blast
    then have xl: "\<forall>a\<in>set (items l). cmp x a \<noteq> 0"
      using cmp_flip[OF c] by fastforce
    from gt have nlt: "\<not> cmp x v < 0" by simp
    from "2.IH"(2)[OF nlt gt c ar orr] obtain r' e where
      d: "Delete cmp r x = Inr (r', e)" and ar': "avl r'"
      and hr': "height r' = height r \<or> height r' = height r - 1"
      and ir': "items r' = filter (\<lambda>y. cmp x y \<noteq> 0) (items r)"
      and e: "case e of None \<Rightarrow> r' = r
        | Some w \<Rightarrow> w \<in> set (items r) \<and> cmp x w = 0 \<and>
            Suc (length (items r')) = length (items r)"
      by blast
    show ?thesis
    proof (cases e)
      case None
      with d e ir' gt xl "2.prems" show ?thesis by auto
    next
      case (Some w)
      from hr' bal have "\<bar>height r' - height l\<bar> \<le> 2" by linarith
      from adjust_rebalance_ok[OF al ar' this, of v hh] obtain t' where
        t': "adjust_rebalance (Node v l r' hh) = Inr t'" "avl t'"
          "items t' = items l @ v # items r'"
          "height t' = max (height l) (height r') + 1 \<or>
           (\<bar>height r' - height l\<bar> = 2 \<and> height t' = max (height l) (height r'))"
        by blast
      have h: "height t' = hh \<or> height t' = hh - 1"
        using t'(4) hr' bal hh by (auto simp: max_def split: if_splits)
      show ?thesis
        using d Some e gt t' h ir' xl by auto
    qed
  next
    case eq
    then have vx: "cmp v x = 0" by (rule cmp_sym0[OF c])
    have "\<forall>a\<in>set (items l). cmp a x < 0"
      using lv vx cmp_lt_eq_trans[OF c] by blast
    then have xl: "\<forall>a\<in>set (items l). cmp x a \<noteq> 0"
      using cmp_flip[OF c] by fastforce
    have xr: "\<forall>b\<in>set (items r). cmp x b \<noteq> 0"
      using vr eq cmp_eq_lt_trans[OF c] by fastforce
    have fl: "filter (\<lambda>y. cmp x y \<noteq> 0) (items (Node v l r hh)) = items l @ items r"
      using xl xr eq by simp
    have vin: "v \<in> set (items (Node v l r hh))"
      and len: "length (items (Node v l r hh)) = Suc (length (items l) + length (items r))"
      by simp_all
    from eq have n1: "\<not> cmp x v < 0" and n2: "\<not> 0 < cmp x v" by simp_all
    from "2.IH"(3)[OF n1 n2 c "2.prems"(2,3)] obtain t' where
      t': "destroy cmp (Node v l r hh) = Inr t'" "items t' = items l @ items r"
      and post: "case t' of NilNode \<Rightarrow> hh = 1
           | Node m a b h' \<Rightarrow>
               (\<exists>t''. adjust_rebalance t' = Inr t'' \<and> avl t'' \<and> items t'' = items t' \<and>
                  (height t'' = hh \<or> height t'' = hh - 1))"
      by blast
    show ?thesis
    proof (cases t')
      case NilNode
      with t' post fl eq vin len show ?thesis by (simp del: items.simps destroy.simps)
    next
      case (Node m a b h')
      with post obtain t'' where
        t'': "adjust_rebalance (Node m a b h') = Inr t''" "avl t''" "items t'' = items t'"
          "height t'' = hh \<or> height t'' = hh - 1"
        by auto
      with t' Node fl eq vin len show ?thesis by (simp del: items.simps destroy.simps)
    qed
  qed
next
  case (3 cmp)
  then show ?case by simp
next
  case (4 cmp v l r hh)
  note c = \<open>consistent cmp\<close>
  from "4.prems" have al: "avl l" and ar: "avl r" and bal: "\<bar>height r - height l\<bar> \<le> 1"
    and hh: "hh = 1 + max (height l) (height r)" by auto
  from "4.prems" have ol: "ordered cmp l" and orr: "ordered cmp r"
    by (auto simp: ordered_Node)
  have "\<exists>t'. destroy cmp (Node v l r hh) = Inr t' \<and> items t' = items l @ items r \<and>
          (case t' of NilNode \<Rightarrow> hh = 1
           | Node m a b h' \<Rightarrow>
               (\<exists>t''. adjust_rebalance t' = Inr t'' \<and> avl t'' \<and> items t'' = items t' \<and>
                  (height t'' = hh \<or> height t'' = hh - 1)))"
  proof (cases "l \<noteq> NilNode \<and> r \<noteq> NilNode")
    case True
    then have m: "Max_node l = Some (last (items l))" by (simp add: Max_node_last)
    from "4.IH"[OF True m c al ol] obtain l' e where
      d: "Delete cmp l (last (items l)) = Inr (l', e)" and al': "avl l'"
      and hl': "height l' = height l \<or> height l' = height l - 1"
      and il': "items l' = filter (\<lambda>y. cmp (last (items l)) y \<noteq> 0) (items l)"
      by blast
    from True have ne: "items l \<noteq> []" by (simp add: items_Nil_iff)
    from il' filter_last_sorted[OF c _ ne] ol have il: "items l' = butlast (items l)"
      by (simp add: ordered_def)
    from hl' bal have "\<bar>height r - height l'\<bar> \<le> 2" by linarith
    from adjust_rebalance_ok[OF al' ar this, of "last (items l)" 0] obtain t'' where
      t'': "adjust_rebalance (Node (last (items l)) l' r 0) = Inr t''" "avl t''"
        "items t'' = items l' @ last (items l) # items r"
        "height t'' = max (height l') (height r) + 1 \<or>
         (\<bar>height r - height l'\<bar> = 2 \<and> height t'' = max (height l') (height r))"
      by blast
    have h: "height t'' = hh \<or> height t'' = hh - 1"
      using t''(4) hl' bal hh by (auto simp: max_def split: if_splits)
    have "destroy cmp (Node v l r hh) = Inr (Node (last (items l)) l' r 0)"
      using True m d by simp
    moreover have "items (Node (last (items l)) l' r 0) = items l @ items r"
      using il ne by simp
    ultimately show ?thesis using t'' h by simp
  next
    case False
    show ?thesis
    proof (cases l)
      case NilNode
      note l = this
      show ?thesis
      proof (cases r)
        case NilNode
        with l hh show ?thesis by simp
      next
        case (Node rv rl rr rh)
        with ar have "adjust_rebalance r = Inr r"
          using rebalance_balanced[of rl rr rv rh] by auto
        with l Node hh ar avl_height_nonneg[of rl] avl_height_nonneg[of rr] show ?thesis
          by (auto simp: max_def split: if_splits)
      qed
    next
      case (Node lv ll lr lh)
      with False have r: "r = NilNode" by simp
      from Node al have "adjust_rebalance l = Inr l"
        using rebalance_balanced[of ll lr lv lh] by auto
      with r Node hh al avl_height_nonneg[of ll] avl_height_nonneg[of lr] show ?thesis
        by (auto simp: max_def split: if_splits)
    qed
  qed
  then show ?case by simp
qed

lemma InOrder_recording: "InOrder t (recording g) calls = calls @ items t"
  by (induction t arbitrary: calls) (auto simp: recording_def)

lemma Tree_Insert_ok:
  assumes "consistent cmp" "avl (root t)" "ordered cmp (root t)"
  shows "\<exists>t' e. Tree_Insert cmp t x = Inr (t', e) \<and> avl (root t') \<and> ordered cmp (root t')"
  using Insert_ok[OF assms, of x] by (auto simp: Tree_Insert_def)

lemma Tree_Update_ok:
  assumes "consistent cmp" "avl (root t)" "ordered cmp (root t)"
  shows "\<exists>t' e. Tree_Update cmp t x = Inr (t', e) \<and> avl (root t') \<and> ordered cmp (root t')"
  using Update_ok[OF assms, of x] by (auto simp: Tree_Update_def)

lemma Tree_Delete_ok:
  assumes "consistent cmp" "avl (root t)" "ordered cmp (root t)"
  shows "\<exists>t' e. Tree_Delete cmp t x = Inr (t', e) \<and> avl (root t') \<and> ordered cmp (root t')"
proof -
  from Delete_destroy_ok(1)[OF assms, of x] obtain n e where
    "Delete cmp (root t) x = Inr (n, e)" "avl n"
    "items n = filter (\<lambda>y. cmp x y \<noteq> 0) (items (root t))"
    by blast
  with assms(3) show ?thesis
    by (auto simp: Tree_Delete_def intro: ordered_filter)
qed

lemma apply_op_ok:
  assumes "consistent cmp" "avl (root t)" "ordered cmp (root t)"
  shows "\<exists>t'. apply_op cmp t p = Inr t' \<and> avl (root t') \<and> ordered cmp (root t')"
proof (cases p)
  case (OpInsert x)
  with Tree_Insert_ok[OF assms, of x] show ?thesis by auto
next
  case (OpUpdate x)
  with Tree_Update_ok[OF assms, of x] show ?thesis by auto
next
  case (OpDelete x)
  with Tree_Delete_ok[OF assms, of x] show ?thesis by auto
qed

lemma run_ok:
  assumes "consistent cmp"
  shows "avl (root t) \<Longrightarrow> ordered cmp (root t) \<Longrightarrow>
    \<exists>t'. run cmp t ops = Inr t' \<and> avl (root t') \<and> ordered cmp (root t')"
proof (induction ops arbitrary: t)
  case Nil
  then show ?case by simp
next
  case (Cons p ops)
  from apply_op_ok[OF assms Cons.prems, of p] obtain t1 where
    "apply_op cmp t p = Inr t1" "avl (root t1)" "ordered cmp (root t1)" by blast
  with Cons.IH[of t1] show ?case by auto
qed

lemma run_empty_ok:
  assumes "consistent cmp"
  obtains T where "run cmp empty_Tree ops = Inr T" "avl (root T)" "ordered cmp (root T)"
  using run_ok[OF assms, of empty_Tree ops] by (auto simp: empty_Tree_def ordered_def)

lemma Insert_existing:
  assumes c: "consistent cmp"
  shows "ordered cmp t \<Longrightarrow> w \<in> set (items t) \<Longrightarrow> cmp x w = 0 \<Longrightarrow>
    Insert cmp t x = Inr (t, Some w)"
proof (induction t)
  case NilNode
  then show ?case by simp
next
  case (Node v l r hh)
  from Node.prems(1) have ol: "ordered cmp l" and orr: "ordered cmp r"
    and lv: "\<forall>a\<in>set (items l). cmp a v < 0" and vr: "\<forall>b\<in>set (items r). cmp v b < 0"
    by (auto simp: ordered_Node)
  from Node.prems(2) consider "w \<in> set (items l)" | "w = v" | "w \<in> set (items r)" by auto
  then show ?case
  proof cases
    case 1
    with lv Node.prems(3) have "cmp x v < 0" using cmp_eq_lt_trans[OF c] by blast
    with Node.IH(1)[OF ol 1 Node.prems(3)] show ?thesis by simp
  next
    case 2
    with Node.prems(3) show ?thesis by simp
  next
    case 3
    with vr have "cmp v w < 0" by blast
    with Node.prems(3) have "cmp v x < 0"
      using cmp_lt_eq_trans[OF c, of v w x] cmp_sym0[OF c] by blast
    then have "0 < cmp x v" using cmp_flip[OF c, of v x] by simp
    with Node.IH(2)[OF orr 3 Node.prems(3)] show ?thesis by simp
  qed
qed

lemma Delete_absent:
  "\<forall>y\<in>set (items t). cmp x y \<noteq> 0 \<Longrightarrow> Delete cmp t x = Inr (t, None)"
  by (induction t) auto

lemma Search_sound: "Search cmp t x = Some w \<Longrightarrow> w \<in> set (items t) \<and> cmp x w = 0"
  by (induction t) (auto split: if_splits)

lemma Search_complete:
  assumes c: "consistent cmp"
  shows "ordered cmp t \<Longrightarrow> w \<in> set (items t) \<Longrightarrow> cmp x w = 0 \<Longrightarrow> Search cmp t x = Some w"
proof (induction t)
  case NilNode
  then show ?case by simp
next
  case (Node v l r hh)
  from Node.prems(1) have ol: "ordered cmp l" and orr: "ordered cmp r"
    and lv: "\<forall>a\<in>set (items l). cmp a v < 0" and vr: "\<forall>b\<in>set (items r). cmp v b < 0"
    by (auto simp: ordered_Node)
  from Node.prems(2) consider "w \<in> set (items l)" | "w = v" | "w \<in> set (items r)" by auto
  then show ?case
  proof cases
    case 1
    with lv Node.prems(3) have "cmp x v < 0" using cmp_eq_lt_trans[OF c] by blast
    with Node.IH(1)[OF ol 1 Node.prems(3)] show ?thesis by simp
  next
    case 2
    with Node.prems(3) show ?thesis by simp
  next
    case 3
    with vr have "cmp v w < 0" by blast
    with Node.prems(3) have "cmp v x < 0"
      using cmp_lt_eq_trans[OF c, of v w x] cmp_sym0[OF c] by blast
    then have "0 < cmp x v" using cmp_flip[OF c, of v x] by simp
    with Node.IH(2)[OF orr 3 Node.prems(3)] show ?thesis by simp
  qed
qed

lemma Min_node_hd: "t \<noteq> NilNode \<Longrightarrow> Min_node t = Some (hd (items t))"
  by (induction t) (auto simp: items_Nil_iff)

lemma sorted_le_last:
  assumes "consistent cmp" "sorted_wrt (\<lambda>a b. cmp a b < 0) xs" "y \<in> set xs"
  shows "cmp y (last xs) \<le> 0"
proof -
  from assms(3) have "xs \<noteq> []" by auto
  then obtain ys z where xs: "xs = ys @ [z]" by (metis append_butlast_last_id)
  with assms(2,3) have "cmp y z < 0 \<or> y = z" by (auto simp: sorted_wrt_append)
  with xs cmp_refl[OF assms(1), of z] show ?thesis by auto
qed

lemma sorted_hd_le:
  assumes "consistent cmp" "sorted_wrt (\<lambda>a b. cmp a b < 0) xs" "y \<in> set xs"
  shows "cmp (hd xs) y \<le> 0"
proof -
  from assms(3) obtain z zs where xs: "xs = z # zs" by (cases xs) auto
  with assms(2,3) have "cmp z y < 0 \<or> y = z" by auto
  with xs cmp_refl[OF assms(1), of z] show ?thesis by auto
qed

lemma Predcessor_ok:
  assumes c: "consistent cmp"
  shows "ordered cmp t \<Longrightarrow> is_predecessor cmp (items t) x (Predcessor cmp t x)"
proof (induction t)
  case NilNode
  then show ?case by (simp add: is_predecessor_def)
next
  case (Node v l r hh)
  from Node.prems(1) have ol: "ordered cmp l" and orr: "ordered cmp r"
    and lv: "\<forall>a\<in>set (items l). cmp a v < 0" and vr: "\<forall>b\<in>set (items r). cmp v b < 0"
    by (auto simp: ordered_Node)
  consider (lt) "cmp x v < 0" | (gt) "cmp x v > 0" | (eq) "cmp x v = 0" by linarith
  then show ?case
  proof cases
    case lt
    then have nv: "\<not> cmp v x < 0" using cmp_lt_irrefl[OF c] by blast
    have nr: "\<forall>b\<in>set (items r). \<not> cmp b x < 0"
      using vr lt cmp_lt_trans[OF c] cmp_lt_irrefl[OF c] by blast
    from Node.IH(1)[OF ol] lt nv nr show ?thesis
      by (auto simp: is_predecessor_def split: option.splits)
  next
    case gt
    then have vx: "cmp v x < 0" using cmp_flip[OF c, of v x] by simp
    have lx: "\<forall>a\<in>set (items l). cmp a x < 0"
      using lv vx cmp_lt_trans[OF c] by blast
    have vv: "cmp v v \<le> 0" using cmp_refl[OF c, of v] by simp
    have lv': "\<forall>a\<in>set (items l). cmp a v \<le> 0" using lv by fastforce
    show ?thesis
    proof (cases "Predcessor cmp r x")
      case None
      with Node.IH(2)[OF orr] have "\<forall>b\<in>set (items r). \<not> cmp b x < 0"
        by (simp add: is_predecessor_def)
      with None gt vx vv lv' show ?thesis
        by (auto simp: is_predecessor_def)
    next
      case (Some p)
      with Node.IH(2)[OF orr] have p: "p \<in> set (items r)" "cmp p x < 0"
        "\<forall>y\<in>set (items r). cmp y x < 0 \<longrightarrow> cmp y p \<le> 0"
        by (simp_all add: is_predecessor_def)
      from p(1) vr have vp: "cmp v p < 0" by blast
      then have vp': "cmp v p \<le> 0" by simp
      have lp: "\<forall>a\<in>set (items l). cmp a p \<le> 0"
        using lv vp cmp_lt_trans[OF c] by fastforce
      from Some gt p vp' lp show ?thesis
        by (auto simp: is_predecessor_def)
    qed
  next
    case eq
    then have vx: "cmp v x = 0" by (rule cmp_sym0[OF c])
    then have nv: "\<not> cmp v x < 0" by simp
    have lx: "\<forall>a\<in>set (items l). cmp a x < 0"
      using lv vx cmp_lt_eq_trans[OF c] by blast
    have "\<forall>b\<in>set (items r). cmp x b < 0"
      using vr eq cmp_eq_lt_trans[OF c] by blast
    then have nr: "\<forall>b\<in>set (items r). \<not> cmp b x < 0"
      using cmp_lt_irrefl[OF c] by blast
    show ?thesis
    proof (cases l)
      case NilNode
      with eq nv nr show ?thesis by (auto simp: is_predecessor_def)
    next
      case (Node lv' ll lr lh)
      then have ne: "l \<noteq> NilNode" by simp
      then have m: "Max_node l = Some (last (items l))" by (rule Max_node_last)
      from ne have "items l \<noteq> []" by (simp add: items_Nil_iff)
      then have lin: "last (items l) \<in> set (items l)" by simp
      have le: "\<forall>a\<in>set (items l). cmp a (last (items l)) \<le> 0"
        using sorted_le_last[OF c] ol by (auto simp: ordered_def)
      from eq m lin lx le nv nr show ?thesis
        by (simp add: is_predecessor_def) blast
    qed
  qed
qed

lemma Successor_ok:
  assumes c: "consistent cmp"
  shows "ordered cmp t \<Longrightarrow> is_successor cmp (items t) x (Successor cmp t x)"
proof (induction t)
  case NilNode
  then show ?case by (simp add: is_successor_def)
next
  case (Node v l r hh)
  from Node.prems(1) have ol: "ordered cmp l" and orr: "ordered cmp r"
    and lv: "\<forall>a\<in>set (items l). cmp a v < 0" and vr: "\<forall>b\<in>set (items r). cmp v b < 0"
    by (auto simp: ordered_Node)
  consider (lt) "cmp x v < 0" | (gt) "cmp x v > 0" | (eq) "cmp x v = 0" by linarith
  then show ?case
  proof cases
    case gt
    then have vx: "cmp v x < 0" using cmp_flip[OF c, of v x] by simp
    then have nv: "\<not> cmp x v < 0" using cmp_lt_irrefl[OF c] by blast
    have nl: "\<forall>a\<in>set (items l). \<not> cmp x a < 0"
      using lv vx cmp_lt_trans[OF c] cmp_lt_irrefl[OF c] by blast
    from Node.IH(2)[OF orr] gt nv nl show ?thesis
      by (auto simp: is_successor_def split: option.splits)
  next
    case lt
    have xr: "\<forall>b\<in>set (items r). cmp x b < 0"
      using vr lt cmp_lt_trans[OF c] by blast
    have vv: "cmp v v \<le> 0" using cmp_refl[OF c, of v] by simp
    have vr': "\<forall>b\<in>set (items r). cmp v b \<le> 0" using vr by fastforce
    show ?thesis
    proof (cases "Successor cmp l x")
      case None
      with Node.IH(1)[OF ol] have "\<forall>a\<in>set (items l). \<not> cmp x a < 0"
        by (simp add: is_successor_def)
      with None lt vv vr' show ?thesis
        by (auto simp: is_successor_def)
    next
      case (Some s)
      with Node.IH(1)[OF ol] have s: "s \<in> set (items l)" "cmp x s < 0"
        "\<forall>y\<in>set (items l). cmp x y < 0 \<longrightarrow> cmp s y \<le> 0"
        by (simp_all add: is_successor_def)
      from s(1) lv have sv: "cmp s v < 0" by blast
      then have sv': "cmp s v \<le> 0" by simp
      have sr: "\<forall>b\<in>set (items r). cmp s b \<le> 0"
        using vr sv cmp_lt_trans[OF c] by fastforce
      from Some lt s sv' sr show ?thesis
        by (auto simp: is_successor_def)
    qed
  next
    case eq
    then have nv: "\<not> cmp x v < 0" by simp
    from eq have vx: "cmp v x = 0" by (rule cmp_sym0[OF c])
    have xr: "\<forall>b\<in>set (items r). cmp x b < 0"
      using vr eq cmp_eq_lt_trans[OF c] by blast
    have "\<forall>a\<in>set (items l). cmp a x < 0"
      using lv vx cmp_lt_eq_trans[OF c] by blast
    then have nl: "\<forall>a\<in>set (items l). \<not> cmp x a < 0"
      using cmp_lt_irrefl[OF c] by blast
    show ?thesis
    proof (cases r)
      case NilNode
      with eq nv nl show ?thesis by (auto simp: is_successor_def)
    next
      case (Node rv' rl rr rh)
      then have ne: "r \<noteq> NilNode" by simp
      then have m: "Min_node r = Some (hd (items r))" by (rule Min_node_hd)
      from ne have "items r \<noteq> []" by (simp add: items_Nil_iff)
      then have hin: "hd (items r) \<in> set (items r)" by simp
      have le: "\<forall>b\<in>set (items r). cmp (hd (items r)) b \<le> 0"
        using sorted_hd_le[OF c] orr by (auto simp: ordered_def)
      from eq m hin xr le nv nl show ?thesis
        by (simp add: is_successor_def) blast
    qed
  qed
qed

lemma avl_height_depth: "avl t \<Longrightarrow> height t = depth t"
  by (induction t) auto

lemma balanced_height_depth: "balanced t \<Longrightarrow> height t = depth t"
  by (induction t) auto

lemma avl_balanced: "avl t = balanced t"
  by (induction t) (auto simp: avl_height_depth balanced_height_depth)


section \<open>The operations on the store compute the operations on values\<close>

lemma unchanged_refl: "unchanged hp hp"
  by (simp add: unchanged_def)

lemma unchanged_trans: "unchanged hp1 hp2 \<Longrightarrow> unchanged hp2 hp3 \<Longrightarrow> unchanged hp1 hp3"
  by (auto simp: unchanged_def)

lemma tree_in_mono: "tree_in A hp p t \<Longrightarrow> A \<subseteq> B \<Longrightarrow> tree_in B hp p t"
  by (induction t arbitrary: p) (auto split: option.splits)

lemma tree_in_cong:
  "tree_in A hp p t \<Longrightarrow> \<forall>a\<in>A. cells hp' a = cells hp a \<Longrightarrow> tree_in A hp' p t"
  by (induction t arbitrary: p) (auto split: option.splits)

lemma tree_in_unchanged:
  "tree_in A hp p t \<Longrightarrow> A \<subseteq> {..<next_free hp} \<Longrightarrow> unchanged hp hp' \<Longrightarrow> tree_in A hp' p t"
  by (erule tree_in_cong) (auto simp: unchanged_def)

lemma tree_in_None [simp]: "tree_in A hp None t \<longleftrightarrow> t = NilNode"
  by (cases t) auto

lemma tree_in_Some:
  "tree_in A hp (Some a) t \<longleftrightarrow>
     (\<exists>l r. t = Node (n_value (cells hp a)) l r (n_h (cells hp a)) \<and> a \<in> A \<and>
        tree_in A hp (n_left (cells hp a)) l \<and> tree_in A hp (n_right (cells hp a)) r)"
  by (cases t) auto

lemma tree_in_height: "tree_in A hp p t \<Longrightarrow> height_h hp p = height t"
  by (cases t) (auto simp: height_h_def split: option.splits)

lemma tree_in_balance: "tree_in A hp p t \<Longrightarrow> balance_h hp p = balance t"
  by (cases t) (auto simp: balance_h_def tree_in_height split: option.splits)

lemma tree_in_functional: "tree_in A hp p t \<Longrightarrow> tree_in B hp p t' \<Longrightarrow> t = t'"
proof (induction t arbitrary: p t')
  case NilNode
  then show ?case by simp
next
  case (Node v l r hh)
  then show ?case by (cases t') (auto split: option.splits)
qed

text \<open>Writing the fields of a node outside \<open>A\<close>, over children inside \<open>A\<close>.\<close>

lemma tree_in_fresh_node:
  assumes "tree_in A hp lp l" "tree_in A hp rp r" "a \<notin> A"
    "cells hp' a = \<lparr>n_value = v, n_left = lp, n_right = rp, n_h = hh\<rparr>"
    "\<forall>b\<in>A. cells hp' b = cells hp b"
  shows "tree_in (insert a A) hp' (Some a) (Node v l r hh)"
  using assms tree_in_cong[of A hp lp l hp'] tree_in_cong[of A hp rp r hp']
  by (auto intro: tree_in_mono)

lemma height_h_above:
  assumes "tree_in A hp q t" "A \<subseteq> {..<next_free hp}" "\<forall>a<next_free hp. f a = cells hp a"
  shows "(case q of None \<Rightarrow> 0 | Some a \<Rightarrow> n_h (f a)) = height t"
  using assms by (cases t) (auto split: option.splits)

lemmas store_simps = clone_h_def alloc_def set_left_def set_right_def set_value_def
  adjustHeight_h_def height_h_def Let_def

lemma rotateRight_h_sim:
  assumes t: "tree_in A hp p t" and A: "A \<subseteq> {..<next_free hp}" and r: "rotateRight t = Inr t'"
  shows "\<exists>p' hp'. rotateRight_h hp p = Inr (p', hp') \<and>
           tree_in (A \<union> {next_free hp..<next_free hp'}) hp' p' t' \<and> unchanged hp hp'"
proof -
  from r obtain v lv ll lr lh r0 hh where t_eq: "t = Node v (Node lv ll lr lh) r0 hh"
    by (cases t rule: rotateRight.cases) auto
  with t obtain a b where p: "p = Some a" and a: "a \<in> A" and va: "n_value (cells hp a) = v"
    and lb: "n_left (cells hp a) = Some b" and b: "b \<in> A" and vb: "n_value (cells hp b) = lv"
    and tll: "tree_in A hp (n_left (cells hp b)) ll"
    and tlr: "tree_in A hp (n_right (cells hp b)) lr"
    and tr: "tree_in A hp (n_right (cells hp a)) r0"
    by (auto split: option.splits)
  define h1 where "h1 = max (height lr) (height r0) + 1"
  define h2 where "h2 = max (height ll) h1 + 1"
  have ab: "a < next_free hp" "b < next_free hp" using a b A by auto
  have hlr: "\<And>f. \<forall>a<next_free hp. f a = cells hp a \<Longrightarrow>
      (case n_right (cells hp b) of None \<Rightarrow> 0 | Some a \<Rightarrow> n_h (f a)) = height lr"
    using height_h_above[OF tlr A] by blast
  have hll: "\<And>f. \<forall>a<next_free hp. f a = cells hp a \<Longrightarrow>
      (case n_left (cells hp b) of None \<Rightarrow> 0 | Some a \<Rightarrow> n_h (f a)) = height ll"
    using height_h_above[OF tll A] by blast
  have hr: "\<And>f. \<forall>a<next_free hp. f a = cells hp a \<Longrightarrow>
      (case n_right (cells hp a) of None \<Rightarrow> 0 | Some a \<Rightarrow> n_h (f a)) = height r0"
    using height_h_above[OF tr A] by blast
  have "\<exists>hp'. rotateRight_h hp p = Inr (Some (next_free hp), hp') \<and> next_free hp' = Suc (Suc (next_free hp)) \<and>
      cells hp' (next_free hp) = \<lparr>n_value = lv, n_left = n_left (cells hp b),
         n_right = Some (Suc (next_free hp)), n_h = h2\<rparr> \<and>
      cells hp' (Suc (next_free hp)) = \<lparr>n_value = v, n_left = n_right (cells hp b),
         n_right = n_right (cells hp a), n_h = h1\<rparr> \<and>
      (\<forall>a<next_free hp. cells hp' a = cells hp a)"
    using p lb ab va vb
    by (simp add: rotateRight_h_def store_simps h1_def h2_def hlr hll hr)
  then obtain hp' where res: "rotateRight_h hp p = Inr (Some (next_free hp), hp')"
    and next_free': "next_free hp' = Suc (Suc (next_free hp))"
    and c0: "cells hp' (next_free hp) = \<lparr>n_value = lv, n_left = n_left (cells hp b),
         n_right = Some (Suc (next_free hp)), n_h = h2\<rparr>"
    and c1: "cells hp' (Suc (next_free hp)) = \<lparr>n_value = v, n_left = n_right (cells hp b),
         n_right = n_right (cells hp a), n_h = h1\<rparr>"
    and old: "\<forall>a<next_free hp. cells hp' a = cells hp a"
    by blast
  have oldA: "\<forall>b\<in>A. cells hp' b = cells hp b" using old A by auto
  have t'_eq: "t' = Node lv ll (Node v lr r0 h1) h2"
    using r t_eq by (simp add: h1_def h2_def)
  have fresh: "Suc (next_free hp) \<notin> A" "next_free hp \<notin> insert (Suc (next_free hp)) A" using A by auto
  have inner: "tree_in (insert (Suc (next_free hp)) A) hp' (Some (Suc (next_free hp))) (Node v lr r0 h1)"
    by (rule tree_in_fresh_node[OF tlr tr fresh(1) c1 oldA])
  have "tree_in A hp' (n_left (cells hp b)) ll"
    by (rule tree_in_cong[OF tll oldA])
  then have ll': "tree_in (insert (Suc (next_free hp)) A) hp' (n_left (cells hp b)) ll"
    by (rule tree_in_mono) auto
  have "tree_in (insert (next_free hp) (insert (Suc (next_free hp)) A)) hp' (Some (next_free hp)) t'"
    unfolding t'_eq by (rule tree_in_fresh_node[OF ll' inner fresh(2) c0]) simp
  then have "tree_in (A \<union> {next_free hp..<next_free hp'}) hp' (Some (next_free hp)) t'"
    by (rule tree_in_mono) (auto simp: next_free')
  moreover have "unchanged hp hp'" using old next_free' by (simp add: unchanged_def)
  ultimately show ?thesis using res by blast
qed


lemma rotateLeft_h_sim:
  assumes t: "tree_in A hp p t" and A: "A \<subseteq> {..<next_free hp}" and r: "rotateLeft t = Inr t'"
  shows "\<exists>p' hp'. rotateLeft_h hp p = Inr (p', hp') \<and>
           tree_in (A \<union> {next_free hp..<next_free hp'}) hp' p' t' \<and> unchanged hp hp'"
proof -
  from r obtain v l0 rv rl rr rh hh where t_eq: "t = Node v l0 (Node rv rl rr rh) hh"
    by (cases t rule: rotateLeft.cases) auto
  with t obtain a b where p: "p = Some a" and a: "a \<in> A" and va: "n_value (cells hp a) = v"
    and rb: "n_right (cells hp a) = Some b" and b: "b \<in> A" and vb: "n_value (cells hp b) = rv"
    and trl: "tree_in A hp (n_left (cells hp b)) rl"
    and trr: "tree_in A hp (n_right (cells hp b)) rr"
    and tl: "tree_in A hp (n_left (cells hp a)) l0"
    by (auto split: option.splits)
  define h1 where "h1 = max (height l0) (height rl) + 1"
  define h2 where "h2 = max h1 (height rr) + 1"
  have ab: "a < next_free hp" "b < next_free hp" using a b A by auto
  have hrl: "\<And>f. \<forall>a<next_free hp. f a = cells hp a \<Longrightarrow>
      (case n_left (cells hp b) of None \<Rightarrow> 0 | Some a \<Rightarrow> n_h (f a)) = height rl"
    using height_h_above[OF trl A] by blast
  have hrr: "\<And>f. \<forall>a<next_free hp. f a = cells hp a \<Longrightarrow>
      (case n_right (cells hp b) of None \<Rightarrow> 0 | Some a \<Rightarrow> n_h (f a)) = height rr"
    using height_h_above[OF trr A] by blast
  have hl: "\<And>f. \<forall>a<next_free hp. f a = cells hp a \<Longrightarrow>
      (case n_left (cells hp a) of None \<Rightarrow> 0 | Some a \<Rightarrow> n_h (f a)) = height l0"
    using height_h_above[OF tl A] by blast
  have "\<exists>hp'. rotateLeft_h hp p = Inr (Some (next_free hp), hp') \<and> next_free hp' = Suc (Suc (next_free hp)) \<and>
      cells hp' (next_free hp) = \<lparr>n_value = rv, n_left = Some (Suc (next_free hp)),
         n_right = n_right (cells hp b), n_h = h2\<rparr> \<and>
      cells hp' (Suc (next_free hp)) = \<lparr>n_value = v, n_left = n_left (cells hp a),
         n_right = n_left (cells hp b), n_h = h1\<rparr> \<and>
      (\<forall>a<next_free hp. cells hp' a = cells hp a)"
    using p rb ab va vb
    by (simp add: rotateLeft_h_def store_simps h1_def h2_def hrl hrr hl)
  then obtain hp' where res: "rotateLeft_h hp p = Inr (Some (next_free hp), hp')"
    and next_free': "next_free hp' = Suc (Suc (next_free hp))"
    and c0: "cells hp' (next_free hp) = \<lparr>n_value = rv, n_left = Some (Suc (next_free hp)),
         n_right = n_right (cells hp b), n_h = h2\<rparr>"
    and c1: "cells hp' (Suc (next_free hp)) = \<lparr>n_value = v, n_left = n_left (cells hp a),
         n_right = n_left (cells hp b), n_h = h1\<rparr>"
    and old: "\<forall>a<next_free hp. cells hp' a = cells hp a"
    by blast
  have oldA: "\<forall>b\<in>A. cells hp' b = cells hp b" using old A by auto
  have t'_eq: "t' = Node rv (Node v l0 rl h1) rr h2"
    using r t_eq by (simp add: h1_def h2_def)
  have fresh: "Suc (next_free hp) \<notin> A" "next_free hp \<notin> insert (Suc (next_free hp)) A" using A by auto
  have inner: "tree_in (insert (Suc (next_free hp)) A) hp' (Some (Suc (next_free hp))) (Node v l0 rl h1)"
    by (rule tree_in_fresh_node[OF tl trl fresh(1) c1 oldA])
  have "tree_in A hp' (n_right (cells hp b)) rr"
    by (rule tree_in_cong[OF trr oldA])
  then have rr': "tree_in (insert (Suc (next_free hp)) A) hp' (n_right (cells hp b)) rr"
    by (rule tree_in_mono) auto
  have "tree_in (insert (next_free hp) (insert (Suc (next_free hp)) A)) hp' (Some (next_free hp)) t'"
    unfolding t'_eq by (rule tree_in_fresh_node[OF inner rr' fresh(2) c0]) simp
  then have "tree_in (A \<union> {next_free hp..<next_free hp'}) hp' (Some (next_free hp)) t'"
    by (rule tree_in_mono) (auto simp: next_free')
  moreover have "unchanged hp hp'" using old next_free' by (simp add: unchanged_def)
  ultimately show ?thesis using res by blast
qed

lemma node_over_tree_in: "node_over B hp a t \<Longrightarrow> tree_in (insert a B) hp (Some a) t"
  by (cases t) (auto simp: node_over_def intro: tree_in_mono)

lemma node_over_bound: "node_over B hp a t \<Longrightarrow> insert a B \<subseteq> {..<next_free hp}"
  by (auto simp: node_over_def)

lemma clone_h_Some:
  "\<exists>hp1. clone_h hp (Some a) = (Some (next_free hp), hp1) \<and> next_free hp1 = Suc (next_free hp) \<and>
     cells hp1 (next_free hp) = cells hp a \<and> (\<forall>b. b \<noteq> next_free hp \<longrightarrow> cells hp1 b = cells hp b)"
  by (simp add: clone_h_def alloc_def)

lemma set_left_over:
  assumes "node_over B hp a (Node v l r hh)" "tree_in B hp m l'"
  shows "\<exists>hp'. set_left hp (Some a) m = Inr hp' \<and> next_free hp' = next_free hp \<and>
           node_over B hp' a (Node v l' r hh) \<and> (\<forall>b. b \<noteq> a \<longrightarrow> cells hp' b = cells hp b)"
proof -
  define hp' where "hp' = hp\<lparr>cells := (cells hp)(a := (cells hp a)\<lparr>n_left := m\<rparr>)\<rparr>"
  have same: "\<forall>b\<in>B. cells hp' b = cells hp b" using assms(1)
    by (auto simp: hp'_def node_over_def)
  from assms have "tree_in B hp' m l'" "tree_in B hp' (n_right (cells hp a)) r"
    by (auto simp: node_over_def intro: tree_in_cong[OF _ same])
  with assms(1) have "node_over B hp' a (Node v l' r hh)"
    by (simp add: node_over_def hp'_def)
  then show ?thesis by (auto simp: set_left_def hp'_def)
qed

lemma set_right_over:
  assumes "node_over B hp a (Node v l r hh)" "tree_in B hp m r'"
  shows "\<exists>hp'. set_right hp (Some a) m = Inr hp' \<and> next_free hp' = next_free hp \<and>
           node_over B hp' a (Node v l r' hh) \<and> (\<forall>b. b \<noteq> a \<longrightarrow> cells hp' b = cells hp b)"
proof -
  define hp' where "hp' = hp\<lparr>cells := (cells hp)(a := (cells hp a)\<lparr>n_right := m\<rparr>)\<rparr>"
  have same: "\<forall>b\<in>B. cells hp' b = cells hp b" using assms(1)
    by (auto simp: hp'_def node_over_def)
  from assms have "tree_in B hp' m r'" "tree_in B hp' (n_left (cells hp a)) l"
    by (auto simp: node_over_def intro: tree_in_cong[OF _ same])
  with assms(1) have "node_over B hp' a (Node v l r' hh)"
    by (simp add: node_over_def hp'_def)
  then show ?thesis by (auto simp: set_right_def hp'_def)
qed

lemma set_value_over:
  assumes "node_over B hp a (Node v l r hh)"
  shows "\<exists>hp'. set_value hp (Some a) x = Inr hp' \<and> next_free hp' = next_free hp \<and>
           node_over B hp' a (Node x l r hh) \<and> (\<forall>b. b \<noteq> a \<longrightarrow> cells hp' b = cells hp b)"
proof -
  define hp' where "hp' = hp\<lparr>cells := (cells hp)(a := (cells hp a)\<lparr>n_value := x\<rparr>)\<rparr>"
  have same: "\<forall>b\<in>B. cells hp' b = cells hp b" using assms(1)
    by (auto simp: hp'_def node_over_def)
  from assms have "tree_in B hp' (n_left (cells hp a)) l" "tree_in B hp' (n_right (cells hp a)) r"
    by (auto simp: node_over_def intro: tree_in_cong[OF _ same])
  with assms(1) have "node_over B hp' a (Node x l r hh)"
    by (simp add: node_over_def hp'_def)
  then show ?thesis by (auto simp: set_value_def hp'_def)
qed

lemma adjustHeight_h_over:
  assumes "node_over B hp a (Node v l r hh)"
  shows "\<exists>hp'. adjustHeight_h hp (Some a) = Inr hp' \<and> next_free hp' = next_free hp \<and>
           node_over B hp' a (Node v l r (max (height l) (height r) + 1)) \<and>
           (\<forall>b. b \<noteq> a \<longrightarrow> cells hp' b = cells hp b)"
proof -
  define hp' where "hp' = hp\<lparr>cells := (cells hp)(a := (cells hp a)
      \<lparr>n_h := max (height l) (height r) + 1\<rparr>)\<rparr>"
  have same: "\<forall>b\<in>B. cells hp' b = cells hp b" using assms(1)
    by (auto simp: hp'_def node_over_def)
  from assms have "tree_in B hp' (n_left (cells hp a)) l" "tree_in B hp' (n_right (cells hp a)) r"
    by (auto simp: node_over_def intro: tree_in_cong[OF _ same])
  with assms(1) have n: "node_over B hp' a (Node v l r (max (height l) (height r) + 1))"
    by (simp add: node_over_def hp'_def)
  from assms have "height_h hp (n_left (cells hp a)) = height l"
    "height_h hp (n_right (cells hp a)) = height r"
    by (auto simp: node_over_def tree_in_height)
  then have "adjustHeight_h hp (Some a) = Inr hp'"
    by (simp add: adjustHeight_h_def hp'_def)
  with n show ?thesis by (auto simp: hp'_def)
qed

text \<open>A clone of a node of a tree is a node over the tree's addresses.\<close>

lemma clone_h_over:
  assumes t: "tree_in A hp (Some a) t" and A: "A \<subseteq> {..<next_free hp}"
  shows "\<exists>hp1. clone_h hp (Some a) = (Some (next_free hp), hp1) \<and> next_free hp1 = Suc (next_free hp) \<and>
     node_over A hp1 (next_free hp) t \<and> (\<forall>b. b \<noteq> next_free hp \<longrightarrow> cells hp1 b = cells hp b)"
proof -
  from clone_h_Some[of hp a] obtain hp1 where
    c: "clone_h hp (Some a) = (Some (next_free hp), hp1)" "next_free hp1 = Suc (next_free hp)"
      "cells hp1 (next_free hp) = cells hp a" "\<forall>b. b \<noteq> next_free hp \<longrightarrow> cells hp1 b = cells hp b"
    by blast
  have same: "\<forall>b\<in>A. cells hp1 b = cells hp b" using c(4) A by auto
  from t obtain v l r hh where t_eq: "t = Node v l r hh" by (cases t) auto
  with t have "tree_in A hp (n_left (cells hp a)) l" "tree_in A hp (n_right (cells hp a)) r"
    "n_value (cells hp a) = v" "n_h (cells hp a) = hh" by auto
  with c(2,3) A have "node_over A hp1 (next_free hp) t"
    by (auto simp: node_over_def t_eq intro: tree_in_cong[OF _ same])
  with c show ?thesis by blast
qed

lemma rebalance_h_sim:
  assumes t: "tree_in A hp p t" and A: "A \<subseteq> {..<next_free hp}" and r: "rebalance t = Inr t'"
  shows "\<exists>p' hp'. rebalance_h hp p = Inr (p', hp') \<and>
           tree_in (A \<union> {next_free hp..<next_free hp'}) hp' p' t' \<and> unchanged hp hp'"
proof (cases t)
  case NilNode
  with t r show ?thesis by (auto simp: rebalance_h_def unchanged_refl)
next
  case (Node v l r0 hh)
  with t obtain a where p: "p = Some a" and a: "a \<in> A"
    and tl: "tree_in A hp (n_left (cells hp a)) l"
    and tr: "tree_in A hp (n_right (cells hp a)) r0"
    by (auto split: option.splits)
  have b: "balance_h hp (Some a) = height r0 - height l"
    using tree_in_balance[OF t] p Node by simp
  have bl: "balance_h hp (n_left (cells hp a)) = balance l"
    and br: "balance_h hp (n_right (cells hp a)) = balance r0"
    using tl tr by (simp_all add: tree_in_balance)
  let ?b = "height r0 - height l"
  consider (rr) "?b < -1" "balance l \<le> 0" | (rl) "?b > 1" "balance r0 \<ge> 0"
    | (lr) "?b < -1" "balance l > 0" | (rlr) "?b > 1" "balance r0 < 0"
    | (none) "\<not> ?b < -1" "\<not> ?b > 1"
    by linarith
  then show ?thesis
  proof cases
    case rr
    with r Node have "rotateRight t = Inr t'" by simp
    from rotateRight_h_sim[OF t A this] rr p b bl show ?thesis
      by (simp add: rebalance_h_def)
  next
    case rl
    with r Node have "rotateLeft t = Inr t'" by simp
    from rotateLeft_h_sim[OF t A this] rl p b br show ?thesis
      by (simp add: rebalance_h_def)
  next
    case lr
    with r Node obtain l' where l': "rotateLeft l = Inr l'"
      and t': "rotateRight (Node v l' r0 hh) = Inr t'"
      by (auto split: sum.splits)
    from clone_h_over[OF t[unfolded p] A] obtain hp1 where
      c: "clone_h hp (Some a) = (Some (next_free hp), hp1)" "next_free hp1 = Suc (next_free hp)"
        "node_over A hp1 (next_free hp) t" "\<forall>b. b \<noteq> next_free hp \<longrightarrow> cells hp1 b = cells hp b"
      by blast
    have same1: "\<forall>b\<in>A. cells hp1 b = cells hp b" using c(4) A by auto
    have A1: "A \<subseteq> {..<next_free hp1}" using A c(2) by auto
    have "tree_in A hp1 (n_left (cells hp a)) l" by (rule tree_in_cong[OF tl same1])
    from rotateLeft_h_sim[OF this A1 l'] obtain lp hp2 where
      rot: "rotateLeft_h hp1 (n_left (cells hp a)) = Inr (lp, hp2)"
      and tlp: "tree_in (A \<union> {next_free hp1..<next_free hp2}) hp2 lp l'"
      and u12: "unchanged hp1 hp2"
      by blast
    let ?B = "A \<union> {next_free hp1..<next_free hp2}"
    have same2: "\<forall>b\<in>A. cells hp2 b = cells hp1 b" using u12 A1 by (auto simp: unchanged_def)
    have cell2: "cells hp2 (next_free hp) = cells hp1 (next_free hp)"
      using u12 c(2) by (simp add: unchanged_def)
    have "tree_in A hp2 (n_left (cells hp1 (next_free hp))) l"
      "tree_in A hp2 (n_right (cells hp1 (next_free hp))) r0"
      using c(3) Node by (auto simp: node_over_def intro: tree_in_cong[OF _ same2])
    then have "tree_in ?B hp2 (n_left (cells hp1 (next_free hp))) l"
      "tree_in ?B hp2 (n_right (cells hp1 (next_free hp))) r0"
      by (auto intro: tree_in_mono)
    then have n2: "node_over ?B hp2 (next_free hp) (Node v l r0 hh)"
      using c(2,3) u12 A Node cell2
      by (auto simp: node_over_def unchanged_def)
    from set_left_over[OF n2 tlp] obtain hp3 where
      s: "set_left hp2 (Some (next_free hp)) lp = Inr hp3" "next_free hp3 = next_free hp2"
        "node_over ?B hp3 (next_free hp) (Node v l' r0 hh)"
        "\<forall>b. b \<noteq> next_free hp \<longrightarrow> cells hp3 b = cells hp2 b"
      by blast
    from rotateRight_h_sim[OF node_over_tree_in[OF s(3)] node_over_bound[OF s(3)] t']
    obtain p' hp' where
      fin: "rotateRight_h hp3 (Some (next_free hp)) = Inr (p', hp')"
      and tfin: "tree_in (insert (next_free hp) ?B \<union> {next_free hp3..<next_free hp'}) hp' p' t'"
      and u3: "unchanged hp3 hp'"
      by blast
    have res: "rebalance_h hp p = Inr (p', hp')"
      using lr p b bl c(1) rot s(1) fin by (simp add: rebalance_h_def)
    have tops: "next_free hp \<le> next_free hp1" "next_free hp1 \<le> next_free hp2" "next_free hp3 \<le> next_free hp'"
      using c(2) u12 u3 by (auto simp: unchanged_def)
    have "unchanged hp hp'"
      using tops s(2,4) c(4) u12 u3 c(2) by (auto simp: unchanged_def)
    moreover have "tree_in (A \<union> {next_free hp..<next_free hp'}) hp' p' t'"
      using tfin tops s(2) c(2) by (rule_tac tree_in_mono) auto
    ultimately show ?thesis using res by blast
  next
    case rlr
    with r Node obtain r' where r': "rotateRight r0 = Inr r'"
      and t': "rotateLeft (Node v l r' hh) = Inr t'"
      by (auto split: sum.splits)
    from clone_h_over[OF t[unfolded p] A] obtain hp1 where
      c: "clone_h hp (Some a) = (Some (next_free hp), hp1)" "next_free hp1 = Suc (next_free hp)"
        "node_over A hp1 (next_free hp) t" "\<forall>b. b \<noteq> next_free hp \<longrightarrow> cells hp1 b = cells hp b"
      by blast
    have same1: "\<forall>b\<in>A. cells hp1 b = cells hp b" using c(4) A by auto
    have A1: "A \<subseteq> {..<next_free hp1}" using A c(2) by auto
    have "tree_in A hp1 (n_right (cells hp a)) r0" by (rule tree_in_cong[OF tr same1])
    from rotateRight_h_sim[OF this A1 r'] obtain rp hp2 where
      rot: "rotateRight_h hp1 (n_right (cells hp a)) = Inr (rp, hp2)"
      and trp: "tree_in (A \<union> {next_free hp1..<next_free hp2}) hp2 rp r'"
      and u12: "unchanged hp1 hp2"
      by blast
    let ?B = "A \<union> {next_free hp1..<next_free hp2}"
    have same2: "\<forall>b\<in>A. cells hp2 b = cells hp1 b" using u12 A1 by (auto simp: unchanged_def)
    have cell2: "cells hp2 (next_free hp) = cells hp1 (next_free hp)"
      using u12 c(2) by (simp add: unchanged_def)
    have "tree_in A hp2 (n_left (cells hp1 (next_free hp))) l"
      "tree_in A hp2 (n_right (cells hp1 (next_free hp))) r0"
      using c(3) Node by (auto simp: node_over_def intro: tree_in_cong[OF _ same2])
    then have "tree_in ?B hp2 (n_left (cells hp1 (next_free hp))) l"
      "tree_in ?B hp2 (n_right (cells hp1 (next_free hp))) r0"
      by (auto intro: tree_in_mono)
    then have n2: "node_over ?B hp2 (next_free hp) (Node v l r0 hh)"
      using c(2,3) u12 A Node cell2
      by (auto simp: node_over_def unchanged_def)
    from set_right_over[OF n2 trp] obtain hp3 where
      s: "set_right hp2 (Some (next_free hp)) rp = Inr hp3" "next_free hp3 = next_free hp2"
        "node_over ?B hp3 (next_free hp) (Node v l r' hh)"
        "\<forall>b. b \<noteq> next_free hp \<longrightarrow> cells hp3 b = cells hp2 b"
      by blast
    from rotateLeft_h_sim[OF node_over_tree_in[OF s(3)] node_over_bound[OF s(3)] t']
    obtain p' hp' where
      fin: "rotateLeft_h hp3 (Some (next_free hp)) = Inr (p', hp')"
      and tfin: "tree_in (insert (next_free hp) ?B \<union> {next_free hp3..<next_free hp'}) hp' p' t'"
      and u3: "unchanged hp3 hp'"
      by blast
    have res: "rebalance_h hp p = Inr (p', hp')"
      using rlr p b br c(1) rot s(1) fin by (simp add: rebalance_h_def)
    have tops: "next_free hp \<le> next_free hp1" "next_free hp1 \<le> next_free hp2" "next_free hp3 \<le> next_free hp'"
      using c(2) u12 u3 by (auto simp: unchanged_def)
    have "unchanged hp hp'"
      using tops s(2,4) c(4) u12 u3 c(2) by (auto simp: unchanged_def)
    moreover have "tree_in (A \<union> {next_free hp..<next_free hp'}) hp' p' t'"
      using tfin tops s(2) c(2) by (rule_tac tree_in_mono) auto
    ultimately show ?thesis using res by blast
  next
    case none
    with r Node have "t' = t" by simp
    moreover have "rebalance_h hp p = Inr (p, hp)"
      using none p b by (simp add: rebalance_h_def)
    ultimately show ?thesis using t by (auto simp: unchanged_refl intro: tree_in_mono)
  qed
qed

lemma node_over_unchanged:
  assumes n: "node_over A hp1 a t" and u: "unchanged hp1 hp2"
    and B: "a \<notin> B" "A \<subseteq> B" "B \<subseteq> {..<next_free hp2}"
  shows "node_over B hp2 a t"
proof -
  from n obtain v l r hh where t_eq: "t = Node v l r hh" by (cases t) (auto simp: node_over_def)
  from n have a: "a < next_free hp1" and A: "A \<subseteq> {..<next_free hp1}"
    by (auto simp: node_over_def)
  have same: "\<forall>b\<in>A. cells hp2 b = cells hp1 b" using u A by (auto simp: unchanged_def)
  have cell: "cells hp2 a = cells hp1 a" using u a by (simp add: unchanged_def)
  from n t_eq have "tree_in A hp2 (n_left (cells hp1 a)) l"
    "tree_in A hp2 (n_right (cells hp1 a)) r"
    by (auto simp: node_over_def intro: tree_in_cong[OF _ same])
  with B(2) have "tree_in B hp2 (n_left (cells hp1 a)) l"
    "tree_in B hp2 (n_right (cells hp1 a)) r"
    by (auto intro: tree_in_mono)
  with n t_eq cell B a u show ?thesis
    by (auto simp: node_over_def unchanged_def)
qed

lemma adjust_rebalance_h_over:
  assumes n: "node_over B hp a (Node v l r hh)"
    and ar: "adjust_rebalance (Node v l r hh) = Inr t'"
  shows "\<exists>p' hp'. adjust_rebalance_h hp (Some a) = Inr (p', hp') \<and>
           tree_in (insert a B \<union> {next_free hp..<next_free hp'}) hp' p' t' \<and>
           next_free hp \<le> next_free hp' \<and>
           (\<forall>b<next_free hp. b \<noteq> a \<longrightarrow> cells hp' b = cells hp b)"
proof -
  from adjustHeight_h_over[OF n] obtain hp1 where
    h: "adjustHeight_h hp (Some a) = Inr hp1" "next_free hp1 = next_free hp"
      "node_over B hp1 a (Node v l r (max (height l) (height r) + 1))"
      "\<forall>b. b \<noteq> a \<longrightarrow> cells hp1 b = cells hp b"
    by blast
  from ar have "rebalance (Node v l r (max (height l) (height r) + 1)) = Inr t'"
    by (simp add: adjust_rebalance_def)
  from rebalance_h_sim[OF node_over_tree_in[OF h(3)] node_over_bound[OF h(3)] this]
  obtain p' hp' where
    r: "rebalance_h hp1 (Some a) = Inr (p', hp')"
      "tree_in (insert a B \<union> {next_free hp1..<next_free hp'}) hp' p' t'"
      "unchanged hp1 hp'"
    by blast
  have "adjust_rebalance_h hp (Some a) = Inr (p', hp')"
    using h(1) r(1) by (simp add: adjust_rebalance_h_def)
  with r(2,3) h(2,4) show ?thesis by (auto simp: unchanged_def)
qed

lemma relink_left_over:
  assumes n: "node_over B hp a (Node v l r hh)" and m: "tree_in B hp m l'"
    and ar: "adjust_rebalance (Node v l' r hh) = Inr t'"
  shows "\<exists>p' hp'. relink_left hp (Some a) m = Inr (p', hp') \<and>
           tree_in (insert a B \<union> {next_free hp..<next_free hp'}) hp' p' t' \<and>
           next_free hp \<le> next_free hp' \<and>
           (\<forall>b<next_free hp. b \<noteq> a \<longrightarrow> cells hp' b = cells hp b)"
proof -
  from set_left_over[OF n m] obtain hp1 where
    s: "set_left hp (Some a) m = Inr hp1" "next_free hp1 = next_free hp"
      "node_over B hp1 a (Node v l' r hh)" "\<forall>b. b \<noteq> a \<longrightarrow> cells hp1 b = cells hp b"
    by blast
  from adjust_rebalance_h_over[OF s(3) ar] s(1,2,4) show ?thesis
    by (auto simp: relink_left_def)
qed

lemma relink_right_over:
  assumes n: "node_over B hp a (Node v l r hh)" and m: "tree_in B hp m r'"
    and ar: "adjust_rebalance (Node v l r' hh) = Inr t'"
  shows "\<exists>p' hp'. relink_right hp (Some a) m = Inr (p', hp') \<and>
           tree_in (insert a B \<union> {next_free hp..<next_free hp'}) hp' p' t' \<and>
           next_free hp \<le> next_free hp' \<and>
           (\<forall>b<next_free hp. b \<noteq> a \<longrightarrow> cells hp' b = cells hp b)"
proof -
  from set_right_over[OF n m] obtain hp1 where
    s: "set_right hp (Some a) m = Inr hp1" "next_free hp1 = next_free hp"
      "node_over B hp1 a (Node v l r' hh)" "\<forall>b. b \<noteq> a \<longrightarrow> cells hp1 b = cells hp b"
    by blast
  from adjust_rebalance_h_over[OF s(3) ar] s(1,2,4) show ?thesis
    by (auto simp: relink_right_def)
qed

text \<open>The clone of \<open>n\<close> taken after the recursive call, as \<open>Insert\<close> and \<open>Delete\<close> do.\<close>

lemma clone_relink_left:
  assumes t: "tree_in A hp (Some a) (Node v l r hh)" and B: "A \<subseteq> B" "B \<subseteq> {..<next_free hp}"
    and m: "tree_in B hp m l'" and ar: "adjust_rebalance (Node v l' r hh) = Inr t'"
  shows "\<exists>hp2 p' hp'. clone_h hp (Some a) = (Some (next_free hp), hp2) \<and>
           relink_left hp2 (Some (next_free hp)) m = Inr (p', hp') \<and>
           tree_in (B \<union> {next_free hp..<next_free hp'}) hp' p' t' \<and> unchanged hp hp'"
proof -
  from B have A: "A \<subseteq> {..<next_free hp}" by auto
  from clone_h_over[OF t A] obtain hp2 where
    c: "clone_h hp (Some a) = (Some (next_free hp), hp2)" "next_free hp2 = Suc (next_free hp)"
      "node_over A hp2 (next_free hp) (Node v l r hh)"
      "\<forall>b. b \<noteq> next_free hp \<longrightarrow> cells hp2 b = cells hp b"
    by blast
  have "next_free hp \<notin> B" "B \<subseteq> {..<next_free hp2}" using B c(2) by auto
  then have n: "node_over B hp2 (next_free hp) (Node v l r hh)"
    using node_over_unchanged[OF c(3) unchanged_refl _ B(1)] by blast
  have same: "\<forall>b\<in>B. cells hp2 b = cells hp b" using c(4) B by auto
  have m2: "tree_in B hp2 m l'" by (rule tree_in_cong[OF m same])
  from relink_left_over[OF n m2 ar] obtain p' hp' where
    r: "relink_left hp2 (Some (next_free hp)) m = Inr (p', hp')"
      "tree_in (insert (next_free hp) B \<union> {next_free hp2..<next_free hp'}) hp' p' t'"
      "next_free hp2 \<le> next_free hp'"
      "\<forall>b<next_free hp2. b \<noteq> next_free hp \<longrightarrow> cells hp' b = cells hp2 b"
    by blast
  have "unchanged hp hp'" using r(3,4) c(2,4) by (auto simp: unchanged_def)
  moreover have "tree_in (B \<union> {next_free hp..<next_free hp'}) hp' p' t'"
    using r(2,3) c(2) by (rule_tac tree_in_mono) auto
  ultimately show ?thesis using c(1) r(1) by blast
qed

lemma clone_relink_right:
  assumes t: "tree_in A hp (Some a) (Node v l r hh)" and B: "A \<subseteq> B" "B \<subseteq> {..<next_free hp}"
    and m: "tree_in B hp m r'" and ar: "adjust_rebalance (Node v l r' hh) = Inr t'"
  shows "\<exists>hp2 p' hp'. clone_h hp (Some a) = (Some (next_free hp), hp2) \<and>
           relink_right hp2 (Some (next_free hp)) m = Inr (p', hp') \<and>
           tree_in (B \<union> {next_free hp..<next_free hp'}) hp' p' t' \<and> unchanged hp hp'"
proof -
  from B have A: "A \<subseteq> {..<next_free hp}" by auto
  from clone_h_over[OF t A] obtain hp2 where
    c: "clone_h hp (Some a) = (Some (next_free hp), hp2)" "next_free hp2 = Suc (next_free hp)"
      "node_over A hp2 (next_free hp) (Node v l r hh)"
      "\<forall>b. b \<noteq> next_free hp \<longrightarrow> cells hp2 b = cells hp b"
    by blast
  have "next_free hp \<notin> B" "B \<subseteq> {..<next_free hp2}" using B c(2) by auto
  then have n: "node_over B hp2 (next_free hp) (Node v l r hh)"
    using node_over_unchanged[OF c(3) unchanged_refl _ B(1)] by blast
  have same: "\<forall>b\<in>B. cells hp2 b = cells hp b" using c(4) B by auto
  have m2: "tree_in B hp2 m r'" by (rule tree_in_cong[OF m same])
  from relink_right_over[OF n m2 ar] obtain p' hp' where
    r: "relink_right hp2 (Some (next_free hp)) m = Inr (p', hp')"
      "tree_in (insert (next_free hp) B \<union> {next_free hp2..<next_free hp'}) hp' p' t'"
      "next_free hp2 \<le> next_free hp'"
      "\<forall>b<next_free hp2. b \<noteq> next_free hp \<longrightarrow> cells hp' b = cells hp2 b"
    by blast
  have "unchanged hp hp'" using r(3,4) c(2,4) by (auto simp: unchanged_def)
  moreover have "tree_in (B \<union> {next_free hp..<next_free hp'}) hp' p' t'"
    using r(2,3) c(2) by (rule_tac tree_in_mono) auto
  ultimately show ?thesis using c(1) r(1) by blast
qed

lemma Insert_h_sim:
  "tree_in A hp p t \<Longrightarrow> A \<subseteq> {..<next_free hp} \<Longrightarrow> Insert cmp t x = Inr (t', e) \<Longrightarrow>
   \<exists>k0. \<forall>k\<ge>k0. \<exists>p' hp'. Insert_h k cmp hp p x = Inr ((p', e), hp') \<and>
      tree_in (A \<union> {next_free hp..<next_free hp'}) hp' p' t' \<and> unchanged hp hp' \<and>
      (e \<noteq> None \<longrightarrow> p' = p \<and> hp' = hp)"
proof (induction t arbitrary: p t' e)
  case NilNode
  then have p: "p = None" and t': "t' = Node x NilNode NilNode 1" and e: "e = None" by auto
  have "\<exists>p' hp'. Insert_h k cmp hp p x = Inr ((p', e), hp') \<and>
      tree_in (A \<union> {next_free hp..<next_free hp'}) hp' p' t' \<and> unchanged hp hp' \<and>
      (e \<noteq> None \<longrightarrow> p' = p \<and> hp' = hp)" if "k \<ge> 1" for k
  proof -
    from that obtain k' where "k = Suc k'" by (cases k) auto
    then show ?thesis using p t' e by (simp add: alloc_def unchanged_def)
  qed
  then show ?case by blast
next
  case (Node v l r hh)
  note A = Node.prems(2)
  from Node.prems(1) obtain a where p: "p = Some a" and a: "a \<in> A"
    and va: "n_value (cells hp a) = v"
    and tl: "tree_in A hp (n_left (cells hp a)) l"
    and tr: "tree_in A hp (n_right (cells hp a)) r"
    by (auto split: option.splits)
  note t = Node.prems(1)[unfolded p]
  consider (lt) "cmp x v < 0" | (gt) "\<not> cmp x v < 0" "cmp x v > 0"
    | (eq) "\<not> cmp x v < 0" "\<not> cmp x v > 0" by linarith
  then show ?case
  proof cases
    case lt
    with Node.prems(3) obtain l' e1 where i: "Insert cmp l x = Inr (l', e1)"
      by (auto split: sum.splits)
    from Node.IH(1)[OF tl A i] obtain k0 where
      ih: "\<forall>k\<ge>k0. \<exists>p' hp'. Insert_h k cmp hp (n_left (cells hp a)) x = Inr ((p', e1), hp') \<and>
        tree_in (A \<union> {next_free hp..<next_free hp'}) hp' p' l' \<and> unchanged hp hp' \<and>
        (e1 \<noteq> None \<longrightarrow> p' = n_left (cells hp a) \<and> hp' = hp)"
      by blast
    have "\<exists>p' hp'. Insert_h k cmp hp p x = Inr ((p', e), hp') \<and>
      tree_in (A \<union> {next_free hp..<next_free hp'}) hp' p' t' \<and> unchanged hp hp' \<and>
      (e \<noteq> None \<longrightarrow> p' = p \<and> hp' = hp)" if "k \<ge> Suc k0" for k
    proof -
      from that obtain k' where k: "k = Suc k'" "k' \<ge> k0" by (cases k) auto
      with ih obtain m hp1 where
        s: "Insert_h k' cmp hp (n_left (cells hp a)) x = Inr ((m, e1), hp1)"
        and tm: "tree_in (A \<union> {next_free hp..<next_free hp1}) hp1 m l'"
        and u: "unchanged hp hp1"
        and d: "e1 \<noteq> None \<longrightarrow> m = n_left (cells hp a) \<and> hp1 = hp"
        by blast
      show ?thesis
      proof (cases e1)
        case (Some ex)
        with Node.prems(3) lt i have "t' = Node v l r hh" "e = Some ex" by auto
        with Some s d k p lt va Node.prems(1) show ?thesis
          by (auto simp: unchanged_refl intro: tree_in_mono)
      next
        case None
        with Node.prems(3) lt i have ar: "adjust_rebalance (Node v l' r hh) = Inr t'"
          and e: "e = None" by (auto split: sum.splits)
        let ?B = "A \<union> {next_free hp..<next_free hp1}"
        have t1: "tree_in A hp1 (Some a) (Node v l r hh)"
          by (rule tree_in_unchanged[OF t A u])
        have B: "A \<subseteq> ?B" "?B \<subseteq> {..<next_free hp1}" using A u by (auto simp: unchanged_def)
        from clone_relink_left[OF t1 B tm ar] obtain hp2 p' hp' where
          c: "clone_h hp1 (Some a) = (Some (next_free hp1), hp2)"
          and r: "relink_left hp2 (Some (next_free hp1)) m = Inr (p', hp')"
          and tf: "tree_in (?B \<union> {next_free hp1..<next_free hp'}) hp' p' t'"
          and u1: "unchanged hp1 hp'"
          by blast
        have "Insert_h k cmp hp p x = Inr ((p', e), hp')"
          using k p lt va s None c r e by simp
        moreover have "unchanged hp hp'" by (rule unchanged_trans[OF u u1])
        moreover have "tree_in (A \<union> {next_free hp..<next_free hp'}) hp' p' t'"
          using tf u u1 by (rule_tac tree_in_mono) (auto simp: unchanged_def)
        ultimately show ?thesis using e by blast
      qed
    qed
    then show ?thesis by blast
  next
    case gt
    with Node.prems(3) obtain r' e1 where i: "Insert cmp r x = Inr (r', e1)"
      by (auto split: sum.splits)
    from Node.IH(2)[OF tr A i] obtain k0 where
      ih: "\<forall>k\<ge>k0. \<exists>p' hp'. Insert_h k cmp hp (n_right (cells hp a)) x = Inr ((p', e1), hp') \<and>
        tree_in (A \<union> {next_free hp..<next_free hp'}) hp' p' r' \<and> unchanged hp hp' \<and>
        (e1 \<noteq> None \<longrightarrow> p' = n_right (cells hp a) \<and> hp' = hp)"
      by blast
    have "\<exists>p' hp'. Insert_h k cmp hp p x = Inr ((p', e), hp') \<and>
      tree_in (A \<union> {next_free hp..<next_free hp'}) hp' p' t' \<and> unchanged hp hp' \<and>
      (e \<noteq> None \<longrightarrow> p' = p \<and> hp' = hp)" if "k \<ge> Suc k0" for k
    proof -
      from that obtain k' where k: "k = Suc k'" "k' \<ge> k0" by (cases k) auto
      with ih obtain m hp1 where
        s: "Insert_h k' cmp hp (n_right (cells hp a)) x = Inr ((m, e1), hp1)"
        and tm: "tree_in (A \<union> {next_free hp..<next_free hp1}) hp1 m r'"
        and u: "unchanged hp hp1"
        and d: "e1 \<noteq> None \<longrightarrow> m = n_right (cells hp a) \<and> hp1 = hp"
        by blast
      show ?thesis
      proof (cases e1)
        case (Some ex)
        with Node.prems(3) gt i have "t' = Node v l r hh" "e = Some ex" by auto
        with Some s d k p gt va Node.prems(1) show ?thesis
          by (auto simp: unchanged_refl intro: tree_in_mono)
      next
        case None
        with Node.prems(3) gt i have ar: "adjust_rebalance (Node v l r' hh) = Inr t'"
          and e: "e = None" by (auto split: sum.splits)
        let ?B = "A \<union> {next_free hp..<next_free hp1}"
        have t1: "tree_in A hp1 (Some a) (Node v l r hh)"
          by (rule tree_in_unchanged[OF t A u])
        have B: "A \<subseteq> ?B" "?B \<subseteq> {..<next_free hp1}" using A u by (auto simp: unchanged_def)
        from clone_relink_right[OF t1 B tm ar] obtain hp2 p' hp' where
          c: "clone_h hp1 (Some a) = (Some (next_free hp1), hp2)"
          and r: "relink_right hp2 (Some (next_free hp1)) m = Inr (p', hp')"
          and tf: "tree_in (?B \<union> {next_free hp1..<next_free hp'}) hp' p' t'"
          and u1: "unchanged hp1 hp'"
          by blast
        have "Insert_h k cmp hp p x = Inr ((p', e), hp')"
          using k p gt va s None c r e by simp
        moreover have "unchanged hp hp'" by (rule unchanged_trans[OF u u1])
        moreover have "tree_in (A \<union> {next_free hp..<next_free hp'}) hp' p' t'"
          using tf u u1 by (rule_tac tree_in_mono) (auto simp: unchanged_def)
        ultimately show ?thesis using e by blast
      qed
    qed
    then show ?thesis by blast
  next
    case eq
    with Node.prems(3) have t': "t' = Node v l r hh" and e: "e = Some v" by auto
    have "\<exists>p' hp'. Insert_h k cmp hp p x = Inr ((p', e), hp') \<and>
      tree_in (A \<union> {next_free hp..<next_free hp'}) hp' p' t' \<and> unchanged hp hp' \<and>
      (e \<noteq> None \<longrightarrow> p' = p \<and> hp' = hp)" if "k \<ge> 1" for k
    proof -
      from that obtain k' where "k = Suc k'" by (cases k) auto
      then show ?thesis using p t' e eq va Node.prems(1)
        by (auto simp: unchanged_refl intro: tree_in_mono)
    qed
    then show ?thesis by blast
  qed
qed

lemma Update_h_sim:
  "tree_in A hp p t \<Longrightarrow> A \<subseteq> {..<next_free hp} \<Longrightarrow> Update cmp t x = Inr (t', e) \<Longrightarrow>
   \<exists>k0. \<forall>k\<ge>k0. \<exists>p' hp'. Update_h k cmp hp p x = Inr ((p', e), hp') \<and>
      tree_in (A \<union> {next_free hp..<next_free hp'}) hp' p' t' \<and> unchanged hp hp'"
proof (induction t arbitrary: A hp p t' e)
  case NilNode
  then have p: "p = None" and t': "t' = Node x NilNode NilNode 1" and e: "e = None" by auto
  have "\<exists>p' hp'. Update_h k cmp hp p x = Inr ((p', e), hp') \<and>
      tree_in (A \<union> {next_free hp..<next_free hp'}) hp' p' t' \<and> unchanged hp hp'"
    if "k \<ge> 1" for k
  proof -
    from that obtain k' where "k = Suc k'" by (cases k) auto
    then show ?thesis using p t' e by (simp add: alloc_def unchanged_def)
  qed
  then show ?case by blast
next
  case (Node v l r hh)
  note A = Node.prems(2)
  from Node.prems(1) obtain a where p: "p = Some a" and a: "a \<in> A"
    and va: "n_value (cells hp a) = v"
    and tl: "tree_in A hp (n_left (cells hp a)) l"
    and tr: "tree_in A hp (n_right (cells hp a)) r"
    by (auto split: option.splits)
  note t = Node.prems(1)[unfolded p]
  from clone_h_over[OF t A] obtain hp1 where
    c: "clone_h hp (Some a) = (Some (next_free hp), hp1)" "next_free hp1 = Suc (next_free hp)"
      "node_over A hp1 (next_free hp) (Node v l r hh)"
      "\<forall>b. b \<noteq> next_free hp \<longrightarrow> cells hp1 b = cells hp b"
    by blast
  have ca: "cells hp1 a = cells hp a" using c(4) a A by auto
  have same1: "\<forall>b\<in>A. cells hp1 b = cells hp b" using c(4) A by auto
  have A1: "A \<subseteq> {..<next_free hp1}" using A c(2) by auto
  have u01: "unchanged hp hp1" using c(2,4) by (auto simp: unchanged_def)
  have e: "e = None" using Node.prems(3) by (auto split: sum.splits if_splits prod.splits)
  consider (lt) "cmp x v < 0" | (gt) "\<not> cmp x v < 0" "cmp x v > 0"
    | (eq) "\<not> cmp x v < 0" "\<not> cmp x v > 0" by linarith
  then show ?case
  proof cases
    case lt
    with Node.prems(3) obtain l' e1 where i: "Update cmp l x = Inr (l', e1)"
      and ar: "adjust_rebalance (Node v l' r hh) = Inr t'"
      by (auto split: sum.splits)
    have tl1: "tree_in A hp1 (n_left (cells hp a)) l" by (rule tree_in_cong[OF tl same1])
    from Node.IH(1)[OF tl1 A1 i] obtain k0 where
      ih: "\<forall>k\<ge>k0. \<exists>p' hp'. Update_h k cmp hp1 (n_left (cells hp a)) x = Inr ((p', e1), hp') \<and>
        tree_in (A \<union> {next_free hp1..<next_free hp'}) hp' p' l' \<and> unchanged hp1 hp'"
      by blast
    have "\<exists>p' hp'. Update_h k cmp hp p x = Inr ((p', e), hp') \<and>
      tree_in (A \<union> {next_free hp..<next_free hp'}) hp' p' t' \<and> unchanged hp hp'"
      if "k \<ge> Suc k0" for k
    proof -
      from that obtain k' where k: "k = Suc k'" "k' \<ge> k0" by (cases k) auto
      with ih obtain m hp2 where
        s: "Update_h k' cmp hp1 (n_left (cells hp a)) x = Inr ((m, e1), hp2)"
        and tm: "tree_in (A \<union> {next_free hp1..<next_free hp2}) hp2 m l'"
        and u: "unchanged hp1 hp2"
        by blast
      let ?B = "A \<union> {next_free hp1..<next_free hp2}"
      have "next_free hp \<notin> ?B" "A \<subseteq> ?B" "?B \<subseteq> {..<next_free hp2}"
        using A c(2) u by (auto simp: unchanged_def)
      then have n: "node_over ?B hp2 (next_free hp) (Node v l r hh)"
        by (rule node_over_unchanged[OF c(3) u])
      from relink_left_over[OF n tm ar] obtain p' hp' where
        r: "relink_left hp2 (Some (next_free hp)) m = Inr (p', hp')"
          "tree_in (insert (next_free hp) ?B \<union> {next_free hp2..<next_free hp'}) hp' p' t'"
          "next_free hp2 \<le> next_free hp'"
          "\<forall>b<next_free hp2. b \<noteq> next_free hp \<longrightarrow> cells hp' b = cells hp2 b"
        by blast
      have "Update_h k cmp hp p x = Inr ((p', e), hp')"
        using k p lt va ca c(1) s r(1) e by simp
      moreover have "unchanged hp hp'"
        using r(3,4) u u01 c(2) by (auto simp: unchanged_def)
      moreover have "tree_in (A \<union> {next_free hp..<next_free hp'}) hp' p' t'"
        using r(2,3) u c(2) by (rule_tac tree_in_mono) (auto simp: unchanged_def)
      ultimately show ?thesis by blast
    qed
    then show ?thesis by blast
  next
    case gt
    with Node.prems(3) obtain r' e1 where i: "Insert cmp r x = Inr (r', e1)"
      and ar: "adjust_rebalance (Node v l r' hh) = Inr t'"
      by (auto split: sum.splits)
    have tr1: "tree_in A hp1 (n_right (cells hp a)) r" by (rule tree_in_cong[OF tr same1])
    from Insert_h_sim[OF tr1 A1 i] obtain k0 where
      ih: "\<forall>k\<ge>k0. \<exists>p' hp'. Insert_h k cmp hp1 (n_right (cells hp a)) x = Inr ((p', e1), hp') \<and>
        tree_in (A \<union> {next_free hp1..<next_free hp'}) hp' p' r' \<and> unchanged hp1 hp'"
      by blast
    have "\<exists>p' hp'. Update_h k cmp hp p x = Inr ((p', e), hp') \<and>
      tree_in (A \<union> {next_free hp..<next_free hp'}) hp' p' t' \<and> unchanged hp hp'"
      if "k \<ge> Suc k0" for k
    proof -
      from that obtain k' where k: "k = Suc k'" "k' \<ge> k0" by (cases k) auto
      with ih obtain m hp2 where
        s: "Insert_h k' cmp hp1 (n_right (cells hp a)) x = Inr ((m, e1), hp2)"
        and tm: "tree_in (A \<union> {next_free hp1..<next_free hp2}) hp2 m r'"
        and u: "unchanged hp1 hp2"
        by blast
      let ?B = "A \<union> {next_free hp1..<next_free hp2}"
      have "next_free hp \<notin> ?B" "A \<subseteq> ?B" "?B \<subseteq> {..<next_free hp2}"
        using A c(2) u by (auto simp: unchanged_def)
      then have n: "node_over ?B hp2 (next_free hp) (Node v l r hh)"
        by (rule node_over_unchanged[OF c(3) u])
      from relink_right_over[OF n tm ar] obtain p' hp' where
        r: "relink_right hp2 (Some (next_free hp)) m = Inr (p', hp')"
          "tree_in (insert (next_free hp) ?B \<union> {next_free hp2..<next_free hp'}) hp' p' t'"
          "next_free hp2 \<le> next_free hp'"
          "\<forall>b<next_free hp2. b \<noteq> next_free hp \<longrightarrow> cells hp' b = cells hp2 b"
        by blast
      have "Update_h k cmp hp p x = Inr ((p', e), hp')"
        using k p gt va ca c(1) s r(1) e by simp
      moreover have "unchanged hp hp'"
        using r(3,4) u u01 c(2) by (auto simp: unchanged_def)
      moreover have "tree_in (A \<union> {next_free hp..<next_free hp'}) hp' p' t'"
        using r(2,3) u c(2) by (rule_tac tree_in_mono) (auto simp: unchanged_def)
      ultimately show ?thesis by blast
    qed
    then show ?thesis by blast
  next
    case eq
    with Node.prems(3) have ar: "adjust_rebalance (Node x l r hh) = Inr t'"
      by (auto split: sum.splits)
    from set_value_over[OF c(3), of x] obtain hp2 where
      s: "set_value hp1 (Some (next_free hp)) x = Inr hp2" "next_free hp2 = next_free hp1"
        "node_over A hp2 (next_free hp) (Node x l r hh)"
        "\<forall>b. b \<noteq> next_free hp \<longrightarrow> cells hp2 b = cells hp1 b"
      by blast
    from adjust_rebalance_h_over[OF s(3) ar] obtain p' hp' where
      r: "adjust_rebalance_h hp2 (Some (next_free hp)) = Inr (p', hp')"
        "tree_in (insert (next_free hp) A \<union> {next_free hp2..<next_free hp'}) hp' p' t'"
        "next_free hp2 \<le> next_free hp'"
        "\<forall>b<next_free hp2. b \<noteq> next_free hp \<longrightarrow> cells hp' b = cells hp2 b"
      by blast
    have u: "unchanged hp hp'"
      using r(3,4) s(2,4) c(2,4) by (auto simp: unchanged_def)
    have tf: "tree_in (A \<union> {next_free hp..<next_free hp'}) hp' p' t'"
      using r(2,3) s(2) c(2) by (rule_tac tree_in_mono) auto
    have "\<exists>p' hp'. Update_h k cmp hp p x = Inr ((p', e), hp') \<and>
      tree_in (A \<union> {next_free hp..<next_free hp'}) hp' p' t' \<and> unchanged hp hp'"
      if "k \<ge> 1" for k
    proof -
      from that obtain k' where "k = Suc k'" by (cases k) auto
      then have "Update_h k cmp hp p x = Inr ((p', e), hp')"
        using p eq va ca c(1) s(1) r(1) e by simp
      with u tf show ?thesis by blast
    qed
    then show ?thesis by blast
  qed
qed

lemma tree_in_nil_iff: "tree_in A hp q t \<Longrightarrow> (q = None) = (t = NilNode)"
  by (cases t) (auto split: option.splits)

lemma Max_h_sim:
  "tree_in A hp p t \<Longrightarrow> \<exists>k0. \<forall>k\<ge>k0. Max_h k hp p = Inr (Max_node t)"
proof (induction t arbitrary: p)
  case NilNode
  then have p: "p = None" by simp
  have "Max_h k hp p = Inr (Max_node NilNode)" if "k \<ge> 1" for k
    using that p by (cases k) auto
  then show ?case by blast
next
  case (Node v l r hh)
  from Node.prems obtain a where p: "p = Some a" and va: "n_value (cells hp a) = v"
    and tr: "tree_in A hp (n_right (cells hp a)) r"
    by (auto split: option.splits)
  from Node.IH(2)[OF tr] obtain k0 where
    ih: "\<forall>k\<ge>k0. Max_h k hp (n_right (cells hp a)) = Inr (Max_node r)" by blast
  have rn: "n_right (cells hp a) \<noteq> None \<longleftrightarrow> r \<noteq> NilNode"
    using tree_in_nil_iff[OF tr] by simp
  have "Max_h k hp p = Inr (Max_node (Node v l r hh))" if "k \<ge> Suc k0" for k
  proof -
    from that obtain k' where "k = Suc k'" "k' \<ge> k0" by (cases k) auto
    with ih p va rn show ?thesis by auto
  qed
  then show ?case by blast
qed

text \<open>
  \<open>root.adjustHeight()\<close> on a node whose height field is already right stores the value
  the field has, and \<open>rebalance\<close> of a balanced node returns the node.
\<close>

lemma adjust_rebalance_h_avl:
  assumes t: "tree_in A hp (Some b) t" and avl: "avl t"
  shows "adjust_rebalance_h hp (Some b) = Inr (Some b, hp)"
proof -
  from t obtain v l r hh where t_eq: "t = Node v l r hh" by (cases t) auto
  with t have tl: "tree_in A hp (n_left (cells hp b)) l"
    and tr: "tree_in A hp (n_right (cells hp b)) r" and h: "n_h (cells hp b) = hh"
    by auto
  from avl t_eq have bal: "\<bar>height r - height l\<bar> \<le> 1" and hh: "hh = 1 + max (height l) (height r)"
    by auto
  have hl: "height_h hp (n_left (cells hp b)) = height l"
    and hr: "height_h hp (n_right (cells hp b)) = height r"
    using tl tr by (simp_all add: tree_in_height)
  have "(cells hp b)\<lparr>n_h := max (height l) (height r) + 1\<rparr> = cells hp b"
    using h hh by simp
  then have a: "adjustHeight_h hp (Some b) = Inr hp"
    by (simp add: adjustHeight_h_def hl hr)
  have "balance_h hp (Some b) = height r - height l"
    by (simp add: balance_h_def hl hr)
  with bal have "rebalance_h hp (Some b) = Inr (Some b, hp)"
    by (auto simp: rebalance_h_def Let_def)
  with a show ?thesis by (simp add: adjust_rebalance_h_def)
qed

lemma adjust_rebalance_avl: "avl t \<Longrightarrow> t \<noteq> NilNode \<Longrightarrow> adjust_rebalance t = Inr t"
  by (cases t) (auto simp: adjust_rebalance_def Let_def)

lemma Delete_destroy_h_sim:
  shows "tree_in A hp p t \<Longrightarrow> A \<subseteq> {..<next_free hp} \<Longrightarrow> avl t \<Longrightarrow>
     Delete cmp t x = Inr (t', e) \<Longrightarrow>
     \<exists>k0. \<forall>k\<ge>k0. \<exists>p' hp'. Delete_h k cmp hp p x = Inr ((p', e), hp') \<and>
        tree_in (A \<union> {next_free hp..<next_free hp'}) hp' p' t' \<and> unchanged hp hp' \<and>
        (e = None \<longrightarrow> p' = p \<and> hp' = hp)"
  and "tree_in A hp p t \<Longrightarrow> A \<subseteq> {..<next_free hp} \<Longrightarrow> avl t \<Longrightarrow>
     destroy cmp t = Inr td \<Longrightarrow>
     \<exists>k0. \<forall>k\<ge>k0. \<exists>pd hpd. destroy_h k cmp hp p = Inr (pd, hpd) \<and> unchanged hp hpd \<and>
        (td = NilNode \<longrightarrow> pd = None \<and> hpd = hp) \<and>
        (\<forall>t''. td \<noteq> NilNode \<longrightarrow> adjust_rebalance td = Inr t'' \<longrightarrow>
           (\<exists>b p'' hp''. pd = Some b \<and> adjust_rebalance_h hpd pd = Inr (p'', hp'') \<and>
              tree_in (A \<union> {next_free hp..<next_free hp''}) hp'' p'' t'' \<and>
              unchanged hp hp''))"
proof (induction cmp t x and cmp t arbitrary: A hp p t' e and A hp p td
    rule: Delete_destroy.induct)
  case (1 cmp x)
  then have p: "p = None" and r: "t' = NilNode" "e = None" by auto
  have "\<exists>p' hp'. Delete_h k cmp hp p x = Inr ((p', e), hp') \<and>
        tree_in (A \<union> {next_free hp..<next_free hp'}) hp' p' t' \<and> unchanged hp hp' \<and>
        (e = None \<longrightarrow> p' = p \<and> hp' = hp)" if "k \<ge> 1" for k
    using that p r by (cases k) (auto simp: unchanged_refl)
  then show ?case by blast
next
  case (2 cmp v l r hh x)
  note A = "2.prems"(2)
  from "2.prems"(1) obtain a where p: "p = Some a" and a: "a \<in> A"
    and va: "n_value (cells hp a) = v"
    and tl: "tree_in A hp (n_left (cells hp a)) l"
    and tr: "tree_in A hp (n_right (cells hp a)) r"
    by (auto split: option.splits)
  note t = "2.prems"(1)[unfolded p]
  from "2.prems"(3) have al: "avl l" and ar: "avl r" by auto
  consider (lt) "cmp x v < 0" | (gt) "\<not> cmp x v < 0" "cmp x v > 0"
    | (eq) "\<not> cmp x v < 0" "\<not> cmp x v > 0" by linarith
  then show ?case
  proof cases
    case lt
    with "2.prems"(4) obtain l' e1 where i: "Delete cmp l x = Inr (l', e1)"
      by (auto split: sum.splits)
    from "2.IH"(1)[OF lt tl A al i] obtain k0 where
      ih: "\<forall>k\<ge>k0. \<exists>p' hp'. Delete_h k cmp hp (n_left (cells hp a)) x = Inr ((p', e1), hp') \<and>
        tree_in (A \<union> {next_free hp..<next_free hp'}) hp' p' l' \<and> unchanged hp hp' \<and>
        (e1 = None \<longrightarrow> p' = n_left (cells hp a) \<and> hp' = hp)"
      by blast
    have "\<exists>p' hp'. Delete_h k cmp hp p x = Inr ((p', e), hp') \<and>
        tree_in (A \<union> {next_free hp..<next_free hp'}) hp' p' t' \<and> unchanged hp hp' \<and>
        (e = None \<longrightarrow> p' = p \<and> hp' = hp)" if "k \<ge> Suc k0" for k
    proof -
      from that obtain k' where k: "k = Suc k'" "k' \<ge> k0" by (cases k) auto
      with ih obtain m hp1 where
        s: "Delete_h k' cmp hp (n_left (cells hp a)) x = Inr ((m, e1), hp1)"
        and tm: "tree_in (A \<union> {next_free hp..<next_free hp1}) hp1 m l'"
        and u: "unchanged hp hp1"
        and d: "e1 = None \<longrightarrow> m = n_left (cells hp a) \<and> hp1 = hp"
        by blast
      show ?thesis
      proof (cases e1)
        case None
        with "2.prems"(4) lt i have "t' = Node v l r hh" "e = None" by auto
        with None s d k p lt va "2.prems"(1) show ?thesis
          by (auto simp: unchanged_refl intro: tree_in_mono)
      next
        case (Some ex)
        with "2.prems"(4) lt i have arb: "adjust_rebalance (Node v l' r hh) = Inr t'"
          and e: "e = Some ex" by (auto split: sum.splits)
        let ?B = "A \<union> {next_free hp..<next_free hp1}"
        have t1: "tree_in A hp1 (Some a) (Node v l r hh)"
          by (rule tree_in_unchanged[OF t A u])
        have B: "A \<subseteq> ?B" "?B \<subseteq> {..<next_free hp1}" using A u by (auto simp: unchanged_def)
        from clone_relink_left[OF t1 B tm arb] obtain hp2 p' hp' where
          c: "clone_h hp1 (Some a) = (Some (next_free hp1), hp2)"
          and r: "relink_left hp2 (Some (next_free hp1)) m = Inr (p', hp')"
          and tf: "tree_in (?B \<union> {next_free hp1..<next_free hp'}) hp' p' t'"
          and u1: "unchanged hp1 hp'"
          by blast
        have "Delete_h k cmp hp p x = Inr ((p', e), hp')"
          using k p lt va s Some c r e by simp
        moreover have "unchanged hp hp'" by (rule unchanged_trans[OF u u1])
        moreover have "tree_in (A \<union> {next_free hp..<next_free hp'}) hp' p' t'"
          using tf u u1 by (rule_tac tree_in_mono) (auto simp: unchanged_def)
        ultimately show ?thesis using e by blast
      qed
    qed
    then show ?thesis by blast
  next
    case gt
    with "2.prems"(4) obtain r' e1 where i: "Delete cmp r x = Inr (r', e1)"
      by (auto split: sum.splits)
    from "2.IH"(2)[OF gt tr A ar i] obtain k0 where
      ih: "\<forall>k\<ge>k0. \<exists>p' hp'. Delete_h k cmp hp (n_right (cells hp a)) x = Inr ((p', e1), hp') \<and>
        tree_in (A \<union> {next_free hp..<next_free hp'}) hp' p' r' \<and> unchanged hp hp' \<and>
        (e1 = None \<longrightarrow> p' = n_right (cells hp a) \<and> hp' = hp)"
      by blast
    have "\<exists>p' hp'. Delete_h k cmp hp p x = Inr ((p', e), hp') \<and>
        tree_in (A \<union> {next_free hp..<next_free hp'}) hp' p' t' \<and> unchanged hp hp' \<and>
        (e = None \<longrightarrow> p' = p \<and> hp' = hp)" if "k \<ge> Suc k0" for k
    proof -
      from that obtain k' where k: "k = Suc k'" "k' \<ge> k0" by (cases k) auto
      with ih obtain m hp1 where
        s: "Delete_h k' cmp hp (n_right (cells hp a)) x = Inr ((m, e1), hp1)"
        and tm: "tree_in (A \<union> {next_free hp..<next_free hp1}) hp1 m r'"
        and u: "unchanged hp hp1"
        and d: "e1 = None \<longrightarrow> m = n_right (cells hp a) \<and> hp1 = hp"
        by blast
      show ?thesis
      proof (cases e1)
        case None
        with "2.prems"(4) gt i have "t' = Node v l r hh" "e = None" by auto
        with None s d k p gt va "2.prems"(1) show ?thesis
          by (auto simp: unchanged_refl intro: tree_in_mono)
      next
        case (Some ex)
        with "2.prems"(4) gt i have arb: "adjust_rebalance (Node v l r' hh) = Inr t'"
          and e: "e = Some ex" by (auto split: sum.splits)
        let ?B = "A \<union> {next_free hp..<next_free hp1}"
        have t1: "tree_in A hp1 (Some a) (Node v l r hh)"
          by (rule tree_in_unchanged[OF t A u])
        have B: "A \<subseteq> ?B" "?B \<subseteq> {..<next_free hp1}" using A u by (auto simp: unchanged_def)
        from clone_relink_right[OF t1 B tm arb] obtain hp2 p' hp' where
          c: "clone_h hp1 (Some a) = (Some (next_free hp1), hp2)"
          and r: "relink_right hp2 (Some (next_free hp1)) m = Inr (p', hp')"
          and tf: "tree_in (?B \<union> {next_free hp1..<next_free hp'}) hp' p' t'"
          and u1: "unchanged hp1 hp'"
          by blast
        have "Delete_h k cmp hp p x = Inr ((p', e), hp')"
          using k p gt va s Some c r e by simp
        moreover have "unchanged hp hp'" by (rule unchanged_trans[OF u u1])
        moreover have "tree_in (A \<union> {next_free hp..<next_free hp'}) hp' p' t'"
          using tf u u1 by (rule_tac tree_in_mono) (auto simp: unchanged_def)
        ultimately show ?thesis using e by blast
      qed
    qed
    then show ?thesis by blast
  next
    case eq
    with "2.prems"(4) obtain td where d: "destroy cmp (Node v l r hh) = Inr td"
      by (auto split: sum.splits simp del: destroy.simps)
    from "2.IH"(3)[OF eq t A "2.prems"(3) d] obtain k0 where
      ih: "\<forall>k\<ge>k0. \<exists>pd hpd. destroy_h k cmp hp (Some a) = Inr (pd, hpd) \<and> unchanged hp hpd \<and>
        (td = NilNode \<longrightarrow> pd = None \<and> hpd = hp) \<and>
        (\<forall>t''. td \<noteq> NilNode \<longrightarrow> adjust_rebalance td = Inr t'' \<longrightarrow>
           (\<exists>b p'' hp''. pd = Some b \<and> adjust_rebalance_h hpd pd = Inr (p'', hp'') \<and>
              tree_in (A \<union> {next_free hp..<next_free hp''}) hp'' p'' t'' \<and>
              unchanged hp hp''))"
      ..
    from a A have a_lt: "a < next_free hp" by auto
    have "\<exists>p' hp'. Delete_h k cmp hp p x = Inr ((p', e), hp') \<and>
        tree_in (A \<union> {next_free hp..<next_free hp'}) hp' p' t' \<and> unchanged hp hp' \<and>
        (e = None \<longrightarrow> p' = p \<and> hp' = hp)" if "k \<ge> Suc k0" for k
    proof -
      from that obtain k' where k: "k = Suc k'" "k' \<ge> k0" by (cases k) auto
      from ih[rule_format, OF k(2)] obtain pd hpd where
        s: "destroy_h k' cmp hp (Some a) = Inr (pd, hpd)" and u: "unchanged hp hpd"
        and n: "td = NilNode \<longrightarrow> pd = None \<and> hpd = hp"
        and f: "\<forall>t''. td \<noteq> NilNode \<longrightarrow> adjust_rebalance td = Inr t'' \<longrightarrow>
           (\<exists>b p'' hp''. pd = Some b \<and> adjust_rebalance_h hpd pd = Inr (p'', hp'') \<and>
              tree_in (A \<union> {next_free hp..<next_free hp''}) hp'' p'' t'' \<and>
              unchanged hp hp'')"
        by (elim exE conjE) (rule that, assumption+)
      have vd: "n_value (cells hpd a) = v" using u a_lt va by (simp add: unchanged_def)
      show ?thesis
      proof (cases td)
        case NilNode
        with "2.prems"(4) eq d have "t' = NilNode" "e = Some v"
          by (auto simp del: destroy.simps)
        with NilNode n s k p eq va show ?thesis
          by (auto simp: unchanged_refl simp del: destroy_h.simps)
      next
        case (Node v' l' r' h')
        with "2.prems"(4) eq d have arb: "adjust_rebalance td = Inr t'" and e: "e = Some v"
          by (auto split: sum.splits simp del: destroy.simps)
        with f Node obtain b p'' hp'' where
          r: "pd = Some b" "adjust_rebalance_h hpd pd = Inr (p'', hp'')"
            "tree_in (A \<union> {next_free hp..<next_free hp''}) hp'' p'' t'"
            "unchanged hp hp''"
          by blast
        have "Delete_h k cmp hp p x = Inr ((p'', e), hp'')"
          using k p eq va s r(1,2) e vd by (simp del: destroy_h.simps)
        with r(3,4) e show ?thesis by blast
      qed
    qed
    then show ?thesis by blast
  qed
next
  case (3 cmp)
  then show ?case by simp
next
  case (4 cmp v l r hh)
  note A = "4.prems"(2)
  from "4.prems"(1) obtain a where p: "p = Some a" and a: "a \<in> A"
    and va: "n_value (cells hp a) = v"
    and tl: "tree_in A hp (n_left (cells hp a)) l"
    and tr: "tree_in A hp (n_right (cells hp a)) r"
    by (auto split: option.splits)
  from "4.prems"(3) have al: "avl l" and ar: "avl r" by auto
  from a A have a_lt: "a < next_free hp" by auto
  have ln: "n_left (cells hp a) \<noteq> None \<longleftrightarrow> l \<noteq> NilNode"
    and rn: "n_right (cells hp a) \<noteq> None \<longleftrightarrow> r \<noteq> NilNode"
    using tree_in_nil_iff[OF tl] tree_in_nil_iff[OF tr] by simp_all
  show ?case
  proof (cases "l \<noteq> NilNode \<and> r \<noteq> NilNode")
    case True
    then have mx: "Max_node l = Some (last (items l))" by (simp add: Max_node_last)
    let ?m = "last (items l)"
    from "4.prems"(4) True mx obtain l' ed where
      i: "Delete cmp l ?m = Inr (l', ed)" and td: "td = Node ?m l' r 0"
      by (auto split: sum.splits)
    from Max_h_sim[OF tl] mx obtain kM where
      km: "\<forall>k\<ge>kM. Max_h k hp (n_left (cells hp a)) = Inr (Some ?m)" by auto
    define T where "T = next_free hp"
    define hp1 where "hp1 = \<lparr>cells = (cells hp)
      (T := \<lparr>n_value = ?m, n_left = None, n_right = None, n_h = 0\<rparr>), next_free = Suc T\<rparr>"
    have al1: "alloc hp \<lparr>n_value = ?m, n_left = None, n_right = None, n_h = 0\<rparr> = (Some T, hp1)"
      by (simp add: alloc_def hp1_def T_def)
    have u01: "unchanged hp hp1" by (auto simp: unchanged_def hp1_def T_def)
    have ca: "cells hp1 a = cells hp a" using a_lt by (simp add: hp1_def T_def)
    have A1: "A \<subseteq> {..<next_free hp1}" using A by (auto simp: hp1_def T_def)
    have tl1: "tree_in A hp1 (n_left (cells hp a)) l"
      by (rule tree_in_unchanged[OF tl A u01])
    from "4.IH"[OF True mx tl1 A1 al i] obtain kD where
      ih: "\<forall>k\<ge>kD. \<exists>p' hp'. Delete_h k cmp hp1 (n_left (cells hp a)) ?m = Inr ((p', ed), hp') \<and>
        tree_in (A \<union> {next_free hp1..<next_free hp'}) hp' p' l' \<and> unchanged hp1 hp'"
      by blast
    have "\<exists>pd hpd. destroy_h k cmp hp p = Inr (pd, hpd) \<and> unchanged hp hpd \<and>
        (td = NilNode \<longrightarrow> pd = None \<and> hpd = hp) \<and>
        (\<forall>t''. td \<noteq> NilNode \<longrightarrow> adjust_rebalance td = Inr t'' \<longrightarrow>
           (\<exists>b p'' hp''. pd = Some b \<and> adjust_rebalance_h hpd pd = Inr (p'', hp'') \<and>
              tree_in (A \<union> {next_free hp..<next_free hp''}) hp'' p'' t'' \<and>
              unchanged hp hp''))" if "k \<ge> Suc (max kM kD)" for k
    proof -
      from that obtain k' where k: "k = Suc k'" "k' \<ge> kM" "k' \<ge> kD" by (cases k) auto
      with km have m: "Max_h k' hp (n_left (cells hp a)) = Inr (Some ?m)" by blast
      from ih k obtain lp hp2 where
        s: "Delete_h k' cmp hp1 (n_left (cells hp a)) ?m = Inr ((lp, ed), hp2)"
        and tlp: "tree_in (A \<union> {next_free hp1..<next_free hp2}) hp2 lp l'"
        and u12: "unchanged hp1 hp2"
        by blast
      let ?B = "A \<union> {next_free hp1..<next_free hp2}"
      have n1: "node_over A hp1 T (Node ?m NilNode NilNode 0)"
        using A by (auto simp: node_over_def hp1_def T_def)
      have "T \<notin> ?B" "A \<subseteq> ?B" "?B \<subseteq> {..<next_free hp2}"
        using A u12 by (auto simp: unchanged_def hp1_def T_def)
      then have n2: "node_over ?B hp2 T (Node ?m NilNode NilNode 0)"
        by (rule node_over_unchanged[OF n1 u12])
      from set_left_over[OF n2 tlp] obtain hp3 where
        s3: "set_left hp2 (Some T) lp = Inr hp3" "next_free hp3 = next_free hp2"
          "node_over ?B hp3 T (Node ?m l' NilNode 0)"
          "\<forall>b. b \<noteq> T \<longrightarrow> cells hp3 b = cells hp2 b"
        by blast
      have ca3: "cells hp3 a = cells hp a"
        using s3(4) u12 ca a_lt by (auto simp: unchanged_def hp1_def T_def)
      have sameB: "\<forall>b\<in>A. cells hp3 b = cells hp b"
        using s3(4) u12 A by (auto simp: unchanged_def hp1_def T_def)
      have "tree_in A hp3 (n_right (cells hp a)) r" by (rule tree_in_cong[OF tr sameB])
      then have tr3: "tree_in ?B hp3 (n_right (cells hp a)) r" by (rule tree_in_mono) auto
      from set_right_over[OF s3(3) tr3] obtain hp4 where
        s4: "set_right hp3 (Some T) (n_right (cells hp a)) = Inr hp4"
          "next_free hp4 = next_free hp3"
          "node_over ?B hp4 T (Node ?m l' r 0)"
          "\<forall>b. b \<noteq> T \<longrightarrow> cells hp4 b = cells hp3 b"
        by blast
      have res: "destroy_h k cmp hp p = Inr (Some T, hp4)"
        using k p True ln rn m al1 ca s s3(1) s4(1) ca3 by simp
      have tops: "next_free hp1 = Suc T" "next_free hp1 \<le> next_free hp2"
        using u12 by (auto simp: unchanged_def hp1_def)
      have u04: "unchanged hp hp4"
        using s4(2,4) s3(2,4) u12 tops by (auto simp: unchanged_def hp1_def T_def)
      have fin: "\<exists>b p'' hp''. Some T = Some b \<and>
          adjust_rebalance_h hp4 (Some T) = Inr (p'', hp'') \<and>
          tree_in (A \<union> {next_free hp..<next_free hp''}) hp'' p'' t'' \<and> unchanged hp hp''"
        if arb: "adjust_rebalance td = Inr t''" for t''
      proof -
        from adjust_rebalance_h_over[OF s4(3) arb[unfolded td]] obtain p'' hp'' where
          r: "adjust_rebalance_h hp4 (Some T) = Inr (p'', hp'')"
            "tree_in (insert T ?B \<union> {next_free hp4..<next_free hp''}) hp'' p'' t''"
            "next_free hp4 \<le> next_free hp''"
            "\<forall>b<next_free hp4. b \<noteq> T \<longrightarrow> cells hp'' b = cells hp4 b"
          by blast
        have "unchanged hp hp''"
          using r(3,4) u04 by (auto simp: unchanged_def T_def)
        moreover have "tree_in (A \<union> {next_free hp..<next_free hp''}) hp'' p'' t''"
          using r(2,3) s4(2) s3(2) tops by (rule_tac tree_in_mono) (auto simp: T_def)
        ultimately show ?thesis using r(1) by blast
      qed
      show ?thesis using res u04 td fin by auto
    qed
    then show ?thesis by blast
  next
    case False
    have "\<exists>pd hpd. destroy_h k cmp hp p = Inr (pd, hpd) \<and> unchanged hp hpd \<and>
        (td = NilNode \<longrightarrow> pd = None \<and> hpd = hp) \<and>
        (\<forall>t''. td \<noteq> NilNode \<longrightarrow> adjust_rebalance td = Inr t'' \<longrightarrow>
           (\<exists>b p'' hp''. pd = Some b \<and> adjust_rebalance_h hpd pd = Inr (p'', hp'') \<and>
              tree_in (A \<union> {next_free hp..<next_free hp''}) hp'' p'' t'' \<and>
              unchanged hp hp''))" if "k \<ge> 1" for k
    proof -
      from that obtain k' where k: "k = Suc k'" by (cases k) auto
      consider (l) "l \<noteq> NilNode" "r = NilNode" | (r) "l = NilNode" "r \<noteq> NilNode"
        | (n) "l = NilNode" "r = NilNode" using False by blast
      then show ?thesis
      proof cases
        case l
        with "4.prems"(4) have td: "td = l" by simp
        from l ln obtain b where b: "n_left (cells hp a) = Some b" by auto
        have res: "destroy_h k cmp hp p = Inr (Some b, hp)"
          using k p l ln rn b by simp
        have arh: "adjust_rebalance_h hp (Some b) = Inr (Some b, hp)"
          by (rule adjust_rebalance_h_avl[OF tl[unfolded b] al])
        have "adjust_rebalance l = Inr l" using al l by (simp add: adjust_rebalance_avl)
        with res arh td tl b l show ?thesis
          by (auto simp: unchanged_refl intro: tree_in_mono)
      next
        case r
        with "4.prems"(4) have td: "td = r" by simp
        from r rn obtain b where b: "n_right (cells hp a) = Some b" by auto
        have res: "destroy_h k cmp hp p = Inr (Some b, hp)"
          using k p r ln rn b by simp
        have arh: "adjust_rebalance_h hp (Some b) = Inr (Some b, hp)"
          by (rule adjust_rebalance_h_avl[OF tr[unfolded b] ar])
        have "adjust_rebalance r = Inr r" using ar r by (simp add: adjust_rebalance_avl)
        with res arh td tr b r show ?thesis
          by (auto simp: unchanged_refl intro: tree_in_mono)
      next
        case n
        with "4.prems"(4) have td: "td = NilNode" by simp
        have "destroy_h k cmp hp p = Inr (None, hp)"
          using k p n ln rn by simp
        with td show ?thesis by (simp add: unchanged_refl)
      qed
    qed
    then show ?thesis by blast
  qed
qed

lemma Delete_h_absent:
  "tree_in A hp p t \<Longrightarrow> \<forall>y\<in>set (items t). cmp x y \<noteq> 0 \<Longrightarrow>
   \<exists>k0. \<forall>k\<ge>k0. Delete_h k cmp hp p x = Inr ((p, None), hp)"
proof (induction t arbitrary: p)
  case NilNode
  then have p: "p = None" by simp
  have "Delete_h k cmp hp p x = Inr ((p, None), hp)" if "k \<ge> 1" for k
    using that p by (cases k) auto
  then show ?case by blast
next
  case (Node v l r hh)
  from Node.prems(1) obtain a where p: "p = Some a" and va: "n_value (cells hp a) = v"
    and tl: "tree_in A hp (n_left (cells hp a)) l"
    and tr: "tree_in A hp (n_right (cells hp a)) r"
    by (auto split: option.splits)
  from Node.prems(2) have nl: "\<forall>y\<in>set (items l). cmp x y \<noteq> 0"
    and nr: "\<forall>y\<in>set (items r). cmp x y \<noteq> 0" and nv: "cmp x v \<noteq> 0" by auto
  from Node.IH(1)[OF tl nl] obtain k1 where
    i1: "\<forall>k\<ge>k1. Delete_h k cmp hp (n_left (cells hp a)) x = Inr ((n_left (cells hp a), None), hp)"
    by blast
  from Node.IH(2)[OF tr nr] obtain k2 where
    i2: "\<forall>k\<ge>k2. Delete_h k cmp hp (n_right (cells hp a)) x = Inr ((n_right (cells hp a), None), hp)"
    by blast
  have "Delete_h k cmp hp p x = Inr ((p, None), hp)" if "k \<ge> Suc (max k1 k2)" for k
  proof -
    from that obtain k' where k: "k = Suc k'" "k' \<ge> k1" "k' \<ge> k2" by (cases k) auto
    with i1 i2 p va nv show ?thesis by (auto simp del: destroy_h.simps)
  qed
  then show ?case by blast
qed

lemma tree_at_unchanged: "tree_at hp p t \<Longrightarrow> unchanged hp hp' \<Longrightarrow> tree_at hp' p t"
  unfolding tree_at_def
  by (rule tree_in_mono[OF tree_in_unchanged]) (auto simp: unchanged_def)

lemma tree_at_result:
  "tree_in ({..<next_free hp} \<union> {next_free hp..<next_free hp'}) hp' p' t' \<Longrightarrow>
   unchanged hp hp' \<Longrightarrow> tree_at hp' p' t'"
  unfolding tree_at_def by (erule tree_in_mono) (auto simp: unchanged_def)

lemma fuel_max3:
  assumes "\<forall>k\<ge>k1. P k" "\<forall>k\<ge>k2. Q k" "\<forall>k\<ge>k3. R k"
  shows "\<exists>k0::nat. \<forall>k\<ge>k0. P k \<and> Q k \<and> R k"
proof -
  have "\<forall>k\<ge>max k1 (max k2 k3). P k \<and> Q k \<and> R k" using assms by simp
  then show ?thesis ..
qed

lemmas store_eval = store12_def tree_at_def clone_h_def alloc_def set_left_def set_right_def
  set_value_def adjustHeight_h_def height_h_def balance_h_def rebalance_h_def
  adjust_rebalance_h_def relink_left_def relink_right_def rotateLeft_h_def rotateRight_h_def
  KV_Compare_def Let_def

section \<open>Balance without the comparison contract\<close>

lemma Insert_avl:
  "avl t \<Longrightarrow> \<exists>t' e. Insert cmp t x = Inr (t', e) \<and> avl t' \<and>
     (height t' = height t \<or> height t' = height t + 1)"
proof (induction t)
  case NilNode
  then show ?case by simp
next
  case (Node v l r hh)
  from Node.prems have al: "avl l" and ar: "avl r" and bal: "\<bar>height r - height l\<bar> \<le> 1"
    and hh: "hh = 1 + max (height l) (height r)" by auto
  consider (lt) "cmp x v < 0" | (gt) "\<not> cmp x v < 0" "cmp x v > 0"
    | (eq) "\<not> cmp x v < 0" "\<not> cmp x v > 0" by linarith
  then show ?case
  proof cases
    case lt
    from Node.IH(1)[OF al] obtain l' e where
      i: "Insert cmp l x = Inr (l', e)" and al': "avl l'"
      and hl': "height l' = height l \<or> height l' = height l + 1"
      by blast
    show ?thesis
    proof (cases e)
      case (Some w)
      with i lt Node.prems show ?thesis by auto
    next
      case None
      from hl' bal have "\<bar>height r - height l'\<bar> \<le> 2" by linarith
      from adjust_rebalance_ok[OF al' ar this, of v hh] obtain t' where
        t': "adjust_rebalance (Node v l' r hh) = Inr t'" "avl t'"
          "height t' = max (height l') (height r) + 1 \<or>
           (\<bar>height r - height l'\<bar> = 2 \<and> height t' = max (height l') (height r))"
        by blast
      have "height t' = hh \<or> height t' = hh + 1"
        using t'(3) hl' bal hh by (auto simp: max_def split: if_splits)
      with i None lt t' show ?thesis by auto
    qed
  next
    case gt
    from Node.IH(2)[OF ar] obtain r' e where
      i: "Insert cmp r x = Inr (r', e)" and ar': "avl r'"
      and hr': "height r' = height r \<or> height r' = height r + 1"
      by blast
    show ?thesis
    proof (cases e)
      case (Some w)
      with i gt Node.prems show ?thesis by auto
    next
      case None
      from hr' bal have "\<bar>height r' - height l\<bar> \<le> 2" by linarith
      from adjust_rebalance_ok[OF al ar' this, of v hh] obtain t' where
        t': "adjust_rebalance (Node v l r' hh) = Inr t'" "avl t'"
          "height t' = max (height l) (height r') + 1 \<or>
           (\<bar>height r' - height l\<bar> = 2 \<and> height t' = max (height l) (height r'))"
        by blast
      have "height t' = hh \<or> height t' = hh + 1"
        using t'(3) hr' bal hh by (auto simp: max_def split: if_splits)
      with i None gt t' show ?thesis by auto
    qed
  next
    case eq
    with Node.prems show ?thesis by auto
  qed
qed

lemma Update_avl:
  "avl t \<Longrightarrow> \<exists>t'. Update cmp t x = Inr (t', None) \<and> avl t' \<and>
     (height t' = height t \<or> height t' = height t + 1)"
proof (induction t)
  case NilNode
  then show ?case by simp
next
  case (Node v l r hh)
  from Node.prems have al: "avl l" and ar: "avl r" and bal: "\<bar>height r - height l\<bar> \<le> 1"
    and hh: "hh = 1 + max (height l) (height r)" by auto
  consider (lt) "cmp x v < 0" | (gt) "\<not> cmp x v < 0" "cmp x v > 0"
    | (eq) "\<not> cmp x v < 0" "\<not> cmp x v > 0" by linarith
  then show ?case
  proof cases
    case lt
    from Node.IH(1)[OF al] obtain l' where
      i: "Update cmp l x = Inr (l', None)" and al': "avl l'"
      and hl': "height l' = height l \<or> height l' = height l + 1"
      by blast
    from hl' bal have "\<bar>height r - height l'\<bar> \<le> 2" by linarith
    from adjust_rebalance_ok[OF al' ar this, of v hh] obtain t' where
      t': "adjust_rebalance (Node v l' r hh) = Inr t'" "avl t'"
        "height t' = max (height l') (height r) + 1 \<or>
         (\<bar>height r - height l'\<bar> = 2 \<and> height t' = max (height l') (height r))"
      by blast
    have "height t' = hh \<or> height t' = hh + 1"
      using t'(3) hl' bal hh by (auto simp: max_def split: if_splits)
    with i lt t' show ?thesis by auto
  next
    case gt
    from Insert_avl[OF ar, of cmp x] obtain r' e where
      i: "Insert cmp r x = Inr (r', e)" and ar': "avl r'"
      and hr': "height r' = height r \<or> height r' = height r + 1"
      by blast
    from hr' bal have "\<bar>height r' - height l\<bar> \<le> 2" by linarith
    from adjust_rebalance_ok[OF al ar' this, of v hh] obtain t' where
      t': "adjust_rebalance (Node v l r' hh) = Inr t'" "avl t'"
        "height t' = max (height l) (height r') + 1 \<or>
         (\<bar>height r' - height l\<bar> = 2 \<and> height t' = max (height l) (height r'))"
      by blast
    have "height t' = hh \<or> height t' = hh + 1"
      using t'(3) hr' bal hh by (auto simp: max_def split: if_splits)
    with i gt t' show ?thesis by auto
  next
    case eq
    from rebalance_balanced[OF al ar bal, of x hh]
    have "adjust_rebalance (Node x l r hh) = Inr (Node x l r hh)" using hh by simp
    with eq Node.prems show ?thesis by auto
  qed
qed

lemma Delete_destroy_avl:
  shows "avl t \<Longrightarrow>
     \<exists>t' e. Delete cmp t x = Inr (t', e) \<and> avl t' \<and>
       (height t' = height t \<or> height t' = height t - 1)"
  and "avl t \<Longrightarrow>
     \<forall>v l r hh. t = Node v l r hh \<longrightarrow>
       (\<exists>t'. destroy cmp t = Inr t' \<and>
          (case t' of NilNode \<Rightarrow> hh = 1
           | Node m a b h' \<Rightarrow>
               (\<exists>t''. adjust_rebalance t' = Inr t'' \<and> avl t'' \<and>
                  (height t'' = hh \<or> height t'' = hh - 1))))"
proof (induction cmp t x and cmp t rule: Delete_destroy.induct)
  case (1 cmp x)
  then show ?case by simp
next
  case (2 cmp v l r hh x)
  from "2.prems" have al: "avl l" and ar: "avl r" and bal: "\<bar>height r - height l\<bar> \<le> 1"
    and hh: "hh = 1 + max (height l) (height r)" by auto
  consider (lt) "cmp x v < 0" | (gt) "\<not> cmp x v < 0" "cmp x v > 0"
    | (eq) "\<not> cmp x v < 0" "\<not> cmp x v > 0" by linarith
  then show ?case
  proof cases
    case lt
    from "2.IH"(1)[OF lt al] obtain l' e where
      d: "Delete cmp l x = Inr (l', e)" and al': "avl l'"
      and hl': "height l' = height l \<or> height l' = height l - 1"
      by blast
    show ?thesis
    proof (cases e)
      case None
      with d lt "2.prems" show ?thesis by auto
    next
      case (Some w)
      from hl' bal have "\<bar>height r - height l'\<bar> \<le> 2" by linarith
      from adjust_rebalance_ok[OF al' ar this, of v hh] obtain t' where
        t': "adjust_rebalance (Node v l' r hh) = Inr t'" "avl t'"
          "height t' = max (height l') (height r) + 1 \<or>
           (\<bar>height r - height l'\<bar> = 2 \<and> height t' = max (height l') (height r))"
        by blast
      have "height t' = hh \<or> height t' = hh - 1"
        using t'(3) hl' bal hh by (auto simp: max_def split: if_splits)
      with d Some lt t' show ?thesis by auto
    qed
  next
    case gt
    from "2.IH"(2)[OF gt ar] obtain r' e where
      d: "Delete cmp r x = Inr (r', e)" and ar': "avl r'"
      and hr': "height r' = height r \<or> height r' = height r - 1"
      by blast
    show ?thesis
    proof (cases e)
      case None
      with d gt "2.prems" show ?thesis by auto
    next
      case (Some w)
      from hr' bal have "\<bar>height r' - height l\<bar> \<le> 2" by linarith
      from adjust_rebalance_ok[OF al ar' this, of v hh] obtain t' where
        t': "adjust_rebalance (Node v l r' hh) = Inr t'" "avl t'"
          "height t' = max (height l) (height r') + 1 \<or>
           (\<bar>height r' - height l\<bar> = 2 \<and> height t' = max (height l) (height r'))"
        by blast
      have "height t' = hh \<or> height t' = hh - 1"
        using t'(3) hr' bal hh by (auto simp: max_def split: if_splits)
      with d Some gt t' show ?thesis by auto
    qed
  next
    case eq
    from "2.IH"(3)[OF eq "2.prems"] obtain t' where
      t': "destroy cmp (Node v l r hh) = Inr t'"
      and post: "case t' of NilNode \<Rightarrow> hh = 1
           | Node m a b h' \<Rightarrow>
               (\<exists>t''. adjust_rebalance t' = Inr t'' \<and> avl t'' \<and>
                  (height t'' = hh \<or> height t'' = hh - 1))"
      by blast
    show ?thesis
    proof (cases t')
      case NilNode
      with t' post eq show ?thesis by (simp del: destroy.simps)
    next
      case (Node m a b h')
      with post obtain t'' where
        "adjust_rebalance (Node m a b h') = Inr t''" "avl t''"
        "height t'' = hh \<or> height t'' = hh - 1"
        by auto
      with t' Node eq show ?thesis by (simp del: destroy.simps)
    qed
  qed
next
  case (3 cmp)
  then show ?case by simp
next
  case (4 cmp v l r hh)
  from "4.prems" have al: "avl l" and ar: "avl r" and bal: "\<bar>height r - height l\<bar> \<le> 1"
    and hh: "hh = 1 + max (height l) (height r)" by auto
  have "\<exists>t'. destroy cmp (Node v l r hh) = Inr t' \<and>
          (case t' of NilNode \<Rightarrow> hh = 1
           | Node m a b h' \<Rightarrow>
               (\<exists>t''. adjust_rebalance t' = Inr t'' \<and> avl t'' \<and>
                  (height t'' = hh \<or> height t'' = hh - 1)))"
  proof (cases "l \<noteq> NilNode \<and> r \<noteq> NilNode")
    case True
    then have m: "Max_node l = Some (last (items l))" by (simp add: Max_node_last)
    from "4.IH"[OF True m al] obtain l' e where
      d: "Delete cmp l (last (items l)) = Inr (l', e)" and al': "avl l'"
      and hl': "height l' = height l \<or> height l' = height l - 1"
      by blast
    from hl' bal have "\<bar>height r - height l'\<bar> \<le> 2" by linarith
    from adjust_rebalance_ok[OF al' ar this, of "last (items l)" 0] obtain t'' where
      t'': "adjust_rebalance (Node (last (items l)) l' r 0) = Inr t''" "avl t''"
        "height t'' = max (height l') (height r) + 1 \<or>
         (\<bar>height r - height l'\<bar> = 2 \<and> height t'' = max (height l') (height r))"
      by blast
    have h: "height t'' = hh \<or> height t'' = hh - 1"
      using t''(3) hl' bal hh by (auto simp: max_def split: if_splits)
    have "destroy cmp (Node v l r hh) = Inr (Node (last (items l)) l' r 0)"
      using True m d by simp
    with t'' h show ?thesis by simp
  next
    case False
    show ?thesis
    proof (cases l)
      case NilNode
      note l = this
      show ?thesis
      proof (cases r)
        case NilNode
        with l hh show ?thesis by simp
      next
        case (Node rv rl rr rh)
        with ar have "adjust_rebalance r = Inr r"
          using rebalance_balanced[of rl rr rv rh] by auto
        with l Node hh ar avl_height_nonneg[of rl] avl_height_nonneg[of rr] show ?thesis
          by (auto simp: max_def split: if_splits)
      qed
    next
      case (Node lv ll lr lh)
      with False have r: "r = NilNode" by simp
      from Node al have "adjust_rebalance l = Inr l"
        using rebalance_balanced[of ll lr lv lh] by auto
      with r Node hh al avl_height_nonneg[of ll] avl_height_nonneg[of lr] show ?thesis
        by (auto simp: max_def split: if_splits)
    qed
  qed
  then show ?case by simp
qed

lemma apply_op_avl:
  assumes "avl (root t)"
  shows "\<exists>t'. apply_op cmp t p = Inr t' \<and> avl (root t')"
proof (cases p)
  case (OpInsert x)
  with Insert_avl[OF assms, of cmp x] show ?thesis by (auto simp: Tree_Insert_def)
next
  case (OpUpdate x)
  with Update_avl[OF assms, of cmp x] show ?thesis by (auto simp: Tree_Update_def)
next
  case (OpDelete x)
  with Delete_destroy_avl(1)[OF assms, of cmp x] show ?thesis by (auto simp: Tree_Delete_def)
qed

lemma run_avl: "avl (root t) \<Longrightarrow> \<exists>t'. run cmp t ops = Inr t' \<and> avl (root t')"
proof (induction ops arbitrary: t)
  case Nil
  then show ?case by simp
next
  case (Cons p ops)
  from apply_op_avl[OF Cons.prems, of cmp p] obtain t1 where
    "apply_op cmp t p = Inr t1" "avl (root t1)" by blast
  with Cons.IH[of t1] show ?case by auto
qed

lemma run_empty_avl:
  obtains T where "run cmp empty_Tree ops = Inr T" "avl (root T)"
  using run_avl[of empty_Tree cmp ops] by (auto simp: empty_Tree_def)

section \<open>Queries on the store compute the queries on values\<close>

lemma Size_h_read: "tree_in A hp p t \<Longrightarrow> size t < k \<Longrightarrow> Size_h k hp p = Inr (Size t)"
proof (induction t arbitrary: p k)
  case NilNode
  then show ?case by (cases k) auto
next
  case (Node v l r hh)
  from Node.prems(2) obtain k' where k: "k = Suc k'" "size l < k'" "size r < k'"
    by (cases k) auto
  from Node.prems(1) obtain a where p: "p = Some a"
    and tl: "tree_in A hp (n_left (cells hp a)) l"
    and tr: "tree_in A hp (n_right (cells hp a)) r"
    by (auto split: option.splits)
  from Node.IH(1)[OF tl k(2)] Node.IH(2)[OF tr k(3)] k(1) p show ?case by simp
qed

lemma Min_h_read: "tree_in A hp p t \<Longrightarrow> size t < k \<Longrightarrow> Min_h k hp p = Inr (Min_node t)"
proof (induction t arbitrary: p k)
  case NilNode
  then show ?case by (cases k) auto
next
  case (Node v l r hh)
  from Node.prems(2) obtain k' where k: "k = Suc k'" "size l < k'" "size r < k'"
    by (cases k) auto
  from Node.prems(1) obtain a where p: "p = Some a" and va: "n_value (cells hp a) = v"
    and tl: "tree_in A hp (n_left (cells hp a)) l"
    by (auto split: option.splits)
  from Node.IH(1)[OF tl k(2)] k(1) p va tree_in_nil_iff[OF tl] show ?case by simp
qed

lemma Max_h_read: "tree_in A hp p t \<Longrightarrow> size t < k \<Longrightarrow> Max_h k hp p = Inr (Max_node t)"
proof (induction t arbitrary: p k)
  case NilNode
  then show ?case by (cases k) auto
next
  case (Node v l r hh)
  from Node.prems(2) obtain k' where k: "k = Suc k'" "size l < k'" "size r < k'"
    by (cases k) auto
  from Node.prems(1) obtain a where p: "p = Some a" and va: "n_value (cells hp a) = v"
    and tr: "tree_in A hp (n_right (cells hp a)) r"
    by (auto split: option.splits)
  from Node.IH(2)[OF tr k(3)] k(1) p va tree_in_nil_iff[OF tr] show ?case by simp
qed

lemma Search_h_read:
  "tree_in A hp p t \<Longrightarrow> size t < k \<Longrightarrow> Search_h k cmp hp p x = Inr (Search cmp t x)"
proof (induction t arbitrary: p k)
  case NilNode
  then show ?case by (cases k) auto
next
  case (Node v l r hh)
  from Node.prems(2) obtain k' where k: "k = Suc k'" "size l < k'" "size r < k'"
    by (cases k) auto
  from Node.prems(1) obtain a where p: "p = Some a" and va: "n_value (cells hp a) = v"
    and tl: "tree_in A hp (n_left (cells hp a)) l"
    and tr: "tree_in A hp (n_right (cells hp a)) r"
    by (auto split: option.splits)
  from Node.IH(1)[OF tl k(2)] Node.IH(2)[OF tr k(3)] k(1) p va show ?case by simp
qed

lemma Predcessor_h_read:
  "tree_in A hp p t \<Longrightarrow> size t < k \<Longrightarrow> Predcessor_h k cmp hp p x = Inr (Predcessor cmp t x)"
proof (induction t arbitrary: p k)
  case NilNode
  then show ?case by (cases k) auto
next
  case (Node v l r hh)
  from Node.prems(2) obtain k' where k: "k = Suc k'" "size l < k'" "size r < k'"
    by (cases k) auto
  from Node.prems(1) obtain a where p: "p = Some a" and va: "n_value (cells hp a) = v"
    and tl: "tree_in A hp (n_left (cells hp a)) l"
    and tr: "tree_in A hp (n_right (cells hp a)) r"
    by (auto split: option.splits)
  from Node.IH(1)[OF tl k(2)] Node.IH(2)[OF tr k(3)] Max_h_read[OF tl k(2)] k(1) p va
  show ?case by (simp split: option.splits)
qed

lemma Successor_h_read:
  "tree_in A hp p t \<Longrightarrow> size t < k \<Longrightarrow> Successor_h k cmp hp p x = Inr (Successor cmp t x)"
proof (induction t arbitrary: p k)
  case NilNode
  then show ?case by (cases k) auto
next
  case (Node v l r hh)
  from Node.prems(2) obtain k' where k: "k = Suc k'" "size l < k'" "size r < k'"
    by (cases k) auto
  from Node.prems(1) obtain a where p: "p = Some a" and va: "n_value (cells hp a) = v"
    and tl: "tree_in A hp (n_left (cells hp a)) l"
    and tr: "tree_in A hp (n_right (cells hp a)) r"
    by (auto split: option.splits)
  from Node.IH(1)[OF tl k(2)] Node.IH(2)[OF tr k(3)] Min_h_read[OF tr k(3)] k(1) p va
  show ?case by (simp split: option.splits)
qed

lemma InOrder_h_read:
  "tree_in A hp p t \<Longrightarrow> size t < k \<Longrightarrow> InOrder_h k hp p fn s = Inr (InOrder t fn s)"
proof (induction t arbitrary: p k s)
  case NilNode
  then show ?case by (cases k) auto
next
  case (Node v l r hh)
  from Node.prems(2) obtain k' where k: "k = Suc k'" "size l < k'" "size r < k'"
    by (cases k) auto
  from Node.prems(1) obtain a where p: "p = Some a" and va: "n_value (cells hp a) = v"
    and tl: "tree_in A hp (n_left (cells hp a)) l"
    and tr: "tree_in A hp (n_right (cells hp a)) r"
    by (auto split: option.splits)
  from Node.IH(1)[OF tl k(2)] Node.IH(2)[OF tr k(3)] k(1) p va show ?case
    by (simp add: Let_def)
qed

lemma PreOrder_h_read:
  "tree_in A hp p t \<Longrightarrow> size t < k \<Longrightarrow> PreOrder_h k hp p fn s = Inr (PreOrder t fn s)"
proof (induction t arbitrary: p k s)
  case NilNode
  then show ?case by (cases k) auto
next
  case (Node v l r hh)
  from Node.prems(2) obtain k' where k: "k = Suc k'" "size l < k'" "size r < k'"
    by (cases k) auto
  from Node.prems(1) obtain a where p: "p = Some a" and va: "n_value (cells hp a) = v"
    and tl: "tree_in A hp (n_left (cells hp a)) l"
    and tr: "tree_in A hp (n_right (cells hp a)) r"
    by (auto split: option.splits)
  from Node.IH(1)[OF tl k(2)] Node.IH(2)[OF tr k(3)] k(1) p va show ?case
    by (simp add: Let_def)
qed

lemma PostOrder_h_read:
  "tree_in A hp p t \<Longrightarrow> size t < k \<Longrightarrow> PostOrder_h k hp p fn s = Inr (PostOrder t fn s)"
proof (induction t arbitrary: p k s)
  case NilNode
  then show ?case by (cases k) auto
next
  case (Node v l r hh)
  from Node.prems(2) obtain k' where k: "k = Suc k'" "size l < k'" "size r < k'"
    by (cases k) auto
  from Node.prems(1) obtain a where p: "p = Some a" and va: "n_value (cells hp a) = v"
    and tl: "tree_in A hp (n_left (cells hp a)) l"
    and tr: "tree_in A hp (n_right (cells hp a)) r"
    by (auto split: option.splits)
  from Node.IH(1)[OF tl k(2)] Node.IH(2)[OF tr k(3)] k(1) p va show ?case
    by (simp add: Let_def)
qed

lemma tree_at_reads_as: "tree_at hp p t \<Longrightarrow> reads_as cmp hp p t"
  unfolding tree_at_def reads_as_def
  by (simp add: Size_h_read Min_h_read Max_h_read Search_h_read Predcessor_h_read
      Successor_h_read)

lemma tree_at_traverses_as: "tree_at hp p t \<Longrightarrow> traverses_as hp p t fn"
  unfolding tree_at_def traverses_as_def
  by (simp add: InOrder_h_read PreOrder_h_read PostOrder_h_read)

lemma persists_after:
  assumes "tree_at hp p t" "unchanged hp hp'"
  shows "tree_at hp' p t \<and> reads_as cmp hp' p t \<and> traverses_as hp' p t fn"
  using tree_at_unchanged[OF assms] by (simp add: tree_at_reads_as tree_at_traverses_as)

text \<open>Whatever the tree and the item, the second result of \<open>Update\<close> is nil.\<close>

lemma Update_prev_None: "Update cmp t x = Inr (t', prev) \<Longrightarrow> prev = None"
  by (cases t) (auto split: if_splits sum.splits prod.splits)

section \<open>Claims\<close>

text \<open>
  C1. \<open>Update\<close> is to return the previously stored item exactly when an item comparing
  equal was present, and the returned tree is to hold the new item in its place, on the
  left and on the right of every node. On the tree holding \<open>(1, old)\<close>, \<open>Update\<close> with
  \<open>(1, new)\<close> replaces the item and returns no previous item; on the tree holding
  \<open>(1, a)\<close> with \<open>(2, old)\<close> to its right, \<open>Update\<close> with \<open>(2, new)\<close> returns no previous
  item and leaves \<open>(2, old)\<close> in the tree.
\<close>

theorem Update_loses_previous:
  "run KV_Compare empty_Tree [OpInsert (1, ''old'')] =
     Inr \<lparr>root = Node (1, ''old'') NilNode NilNode 1, size_of = 1\<rparr> \<and>
   Tree_Update KV_Compare \<lparr>root = Node (1, ''old'') NilNode NilNode 1, size_of = 1\<rparr>
       (1, ''new'') =
     Inr (\<lparr>root = Node (1, ''new'') NilNode NilNode 1, size_of = 2\<rparr>, None) \<and>
   run KV_Compare empty_Tree [OpInsert (1, ''a''), OpInsert (2, ''old'')] =
     Inr \<lparr>root = Node (1, ''a'') NilNode (Node (2, ''old'') NilNode NilNode 1) 2,
          size_of = 2\<rparr> \<and>
   Tree_Update KV_Compare
       \<lparr>root = Node (1, ''a'') NilNode (Node (2, ''old'') NilNode NilNode 1) 2, size_of = 2\<rparr>
       (2, ''new'') =
     Inr (\<lparr>root = Node (1, ''a'') NilNode (Node (2, ''old'') NilNode NilNode 1) 2,
           size_of = 3\<rparr>, None)"
  by (simp add: eval_simps)

text \<open>
  C2. A traversal is to stop at the first call on which the visitor returns false. On the
  tree built by inserting the keys 1, 2 and 3, with a visitor that returns false on every
  call, each of the three traversals calls the visitor with all three items.
\<close>

theorem traversals_ignore_stop:
  "run KV_Compare empty_Tree [OpInsert (1, ''a''), OpInsert (2, ''b''), OpInsert (3, ''c'')] =
     Inr \<lparr>root = Node (2, ''b'') (Node (1, ''a'') NilNode NilNode 1)
                   (Node (3, ''c'') NilNode NilNode 1) 2, size_of = 3\<rparr> \<and>
   Tree_InOrder \<lparr>root = Node (2, ''b'') (Node (1, ''a'') NilNode NilNode 1)
                   (Node (3, ''c'') NilNode NilNode 1) 2, size_of = 3\<rparr>
     (recording (\<lambda>x. False)) [] = [(1, ''a''), (2, ''b''), (3, ''c'')] \<and>
   Tree_PreOrder \<lparr>root = Node (2, ''b'') (Node (1, ''a'') NilNode NilNode 1)
                   (Node (3, ''c'') NilNode NilNode 1) 2, size_of = 3\<rparr>
     (recording (\<lambda>x. False)) [] = [(2, ''b''), (1, ''a''), (3, ''c'')] \<and>
   Tree_PostOrder \<lparr>root = Node (2, ''b'') (Node (1, ''a'') NilNode NilNode 1)
                   (Node (3, ''c'') NilNode NilNode 1) 2, size_of = 3\<rparr>
     (recording (\<lambda>x. False)) [] = [(1, ''a''), (3, ''c''), (2, ''b'')]"
  by (simp add: eval_simps)

text \<open>
  C6. \<open>Size()\<close> is to equal the number of items a full in-order traversal visits. After
  \<open>Update\<close> with \<open>(1, a)\<close> and then with \<open>(1, b)\<close> on the empty tree, the tree holds the one
  item \<open>(1, b)\<close> and \<open>Size()\<close> is 2.
\<close>

theorem Size_counts_every_Update:
  "run KV_Compare empty_Tree [OpUpdate (1, ''a''), OpUpdate (1, ''b'')] =
     Inr \<lparr>root = Node (1, ''b'') NilNode NilNode 1, size_of = 2\<rparr> \<and>
   Tree_Size \<lparr>root = Node (1, ''b'') NilNode NilNode 1, size_of = 2\<rparr> = 2 \<and>
   Tree_InOrder \<lparr>root = Node (1, ''b'') NilNode NilNode 1, size_of = 2\<rparr>
     (recording (\<lambda>x. True)) [] = [(1, ''b'')]"
  by (simp add: eval_simps)

text \<open>
  C3. For every sequence of \<open>Insert\<close>, \<open>Update\<close> and \<open>Delete\<close> applied to the empty tree
  (with an item type that keeps the comparison contract), the operations return a tree, and
  the items the in-order traversal passes to its visitor are strictly ascending: every item
  compares less than every item passed after it.
\<close>

theorem InOrder_ascending:
  assumes "consistent cmp"
  shows "\<exists>T. run cmp empty_Tree ops = Inr T \<and>
           sorted_wrt (\<lambda>a b. cmp a b < 0) (Tree_InOrder T (recording go_on) [])"
proof -
  from run_empty_ok[OF assms, of ops] obtain T where
    "run cmp empty_Tree ops = Inr T" "ordered cmp (root T)" by blast
  then show ?thesis
    by (auto simp: Tree_InOrder_def InOrder_recording ordered_def)
qed

theorem InOrder_ascending_witness:
  "consistent KV_Compare \<and>
   run KV_Compare empty_Tree
     [OpInsert (3, ''c''), OpInsert (1, ''a''), OpUpdate (2, ''b''), OpInsert (4, ''d''),
      OpDelete (3, ''c'')] =
     Inr \<lparr>root = Node (2, ''b'') (Node (1, ''a'') NilNode NilNode 1)
                  (Node (4, ''d'') NilNode NilNode 1) 2, size_of = 3\<rparr> \<and>
   Tree_InOrder \<lparr>root = Node (2, ''b'') (Node (1, ''a'') NilNode NilNode 1)
                  (Node (4, ''d'') NilNode NilNode 1) 2, size_of = 3\<rparr>
     (recording (\<lambda>x. True)) [] = [(1, ''a''), (2, ''b''), (4, ''d'')] \<and>
   sorted_wrt (\<lambda>a b. KV_Compare a b < 0) [(1, ''a''), (2, ''b''), (4, ''d'')]"
  using consistent_KV_Compare
    InOrder_ascending[OF consistent_KV_Compare,
      of "[OpInsert (3, ''c''), OpInsert (1, ''a''), OpUpdate (2, ''b''), OpInsert (4, ''d''),
           OpDelete (3, ''c'')]" "\<lambda>x. True"]
  by (simp add: eval_simps)


text \<open>
  C4. For every sequence of \<open>Insert\<close>, \<open>Update\<close> and \<open>Delete\<close> applied to the empty tree,
  whatever the comparison function, the operations return a tree in which, at every node,
  the heights of the two children differ by at most one and the height field is one more
  than the larger of them, an empty subtree having height 0; this holds for the heights as
  the height fields give them (\<open>avl\<close>) and as the shape of the tree gives them
  (\<open>balanced\<close>).
\<close>

theorem balance_invariant:
  "\<exists>T. run cmp empty_Tree ops = Inr T \<and> avl (root T) \<and> balanced (root T)"
  using run_empty_avl[of cmp ops] avl_balanced by blast

theorem balance_invariant_witness:
  "run KV_Compare empty_Tree
     [OpInsert (1, ''a''), OpInsert (2, ''b''), OpInsert (3, ''c''), OpUpdate (4, ''d''),
      OpInsert (5, ''e''), OpDelete (1, ''a'')] =
     Inr \<lparr>root = Node (4, ''d'') (Node (2, ''b'') NilNode (Node (3, ''c'') NilNode NilNode 1) 2)
                  (Node (5, ''e'') NilNode NilNode 1) 3, size_of = 4\<rparr> \<and>
   avl (Node (4, ''d'') (Node (2, ''b'') NilNode (Node (3, ''c'') NilNode NilNode 1) 2)
                  (Node (5, ''e'') NilNode NilNode 1) 3) \<and>
   balanced (Node (4, ''d'') (Node (2, ''b'') NilNode (Node (3, ''c'') NilNode NilNode 1) 2)
                  (Node (5, ''e'') NilNode NilNode 1) 3)"
  using balance_invariant[of KV_Compare
      "[OpInsert (1, ''a''), OpInsert (2, ''b''), OpInsert (3, ''c''), OpUpdate (4, ''d''),
      OpInsert (5, ''e''), OpDelete (1, ''a'')]"]
  by (simp add: eval_simps)

text \<open>
  C5. On a tree \<open>T\<close> built by the public operations that holds an item \<open>w\<close> comparing
  equal to \<open>x\<close>, \<open>T.Insert(x)\<close> returns \<open>T\<close> itself (same root, same size) together with
  \<open>w\<close> as the existing item.
\<close>

theorem Insert_duplicate_unchanged:
  assumes "consistent cmp" "run cmp empty_Tree ops = Inr T"
    "w \<in> set (items (root T))" "cmp x w = 0"
  shows "Tree_Insert cmp T x = Inr (T, Some w)"
proof -
  from run_empty_ok[OF assms(1), of ops] assms(2) have "ordered cmp (root T)" by auto
  from Insert_existing[OF assms(1) this assms(3,4)] show ?thesis
    by (simp add: Tree_Insert_def)
qed

theorem Insert_duplicate_unchanged_witness:
  "consistent KV_Compare \<and>
   run KV_Compare empty_Tree [OpInsert (1, ''a''), OpInsert (2, ''b'')] =
     Inr \<lparr>root = Node (1, ''a'') NilNode (Node (2, ''b'') NilNode NilNode 1) 2, size_of = 2\<rparr> \<and>
   ((2, ''b'') :: KV) \<in> set (items (Node (1, ''a'') NilNode (Node (2, ''b'') NilNode NilNode 1) 2)) \<and>
   KV_Compare (2, ''other'') (2, ''b'') = 0 \<and>
   Tree_Insert KV_Compare
       \<lparr>root = Node (1, ''a'') NilNode (Node (2, ''b'') NilNode NilNode 1) 2, size_of = 2\<rparr>
       (2, ''other'') =
     Inr (\<lparr>root = Node (1, ''a'') NilNode (Node (2, ''b'') NilNode NilNode 1) 2, size_of = 2\<rparr>,
          Some (2, ''b''))"
proof -
  have r: "run KV_Compare empty_Tree [OpInsert (1, ''a''), OpInsert (2, ''b'')] =
     Inr \<lparr>root = Node (1, ''a'') NilNode (Node (2, ''b'') NilNode NilNode 1) 2, size_of = 2\<rparr>"
    by (simp add: eval_simps)
  have m: "((2, ''b'') :: KV) \<in> set (items (root
     \<lparr>root = Node (1, ''a'') NilNode (Node (2, ''b'') NilNode NilNode 1) 2, size_of = 2\<rparr>))"
    by simp
  have e: "KV_Compare (2, ''other'') (2, ''b'') = 0" by (simp add: KV_Compare_def)
  have i: "Tree_Insert KV_Compare
       \<lparr>root = Node (1, ''a'') NilNode (Node (2, ''b'') NilNode NilNode 1) 2, size_of = 2\<rparr>
       (2, ''other'') =
     Inr (\<lparr>root = Node (1, ''a'') NilNode (Node (2, ''b'') NilNode NilNode 1) 2, size_of = 2\<rparr>,
          Some (2, ''b''))"
    by (rule Insert_duplicate_unchanged[of KV_Compare "[OpInsert (1, ''a''), OpInsert (2, ''b'')]"
       "\<lparr>root = Node (1, ''a'') NilNode (Node (2, ''b'') NilNode NilNode 1) 2, size_of = 2\<rparr>"
       "(2, ''b'')" "(2, ''other'')", OF consistent_KV_Compare r m e])
  have m': "((2, ''b'') :: KV) \<in> set (items (Node (1, ''a'') NilNode (Node (2, ''b'') NilNode NilNode 1) 2))"
    by simp
  show ?thesis
    by (intro conjI consistent_KV_Compare r m' e i)
qed

text \<open>
  C8. On a tree \<open>T\<close> holding no item that compares equal to \<open>x\<close>, \<open>T.Delete(x)\<close> returns
  \<open>T\<close> itself (same root, same size) and no removed item, and does not panic. In every
  store that holds the tree, \<open>Delete\<close> returns the pointer it was given and leaves the
  store as it is: nothing is allocated, so nothing is cloned.
\<close>

theorem Delete_absent_unchanged:
  assumes "\<forall>y\<in>set (items (root T)). cmp x y \<noteq> 0"
  shows "Tree_Delete cmp T x = Inr (T, None) \<and>
    (\<forall>hp p. tree_at hp p (root T) \<longrightarrow>
       (\<exists>k0. \<forall>k\<ge>k0. Delete_h k cmp hp p x = Inr ((p, None), hp)))"
proof -
  have "Tree_Delete cmp T x = Inr (T, None)"
    using Delete_absent[of "root T" cmp x] assms by (simp add: Tree_Delete_def)
  moreover have "\<exists>k0. \<forall>k\<ge>k0. Delete_h k cmp hp p x = Inr ((p, None), hp)"
    if "tree_at hp p (root T)" for hp p
    using Delete_h_absent[of "{..<next_free hp}" hp p "root T" cmp x] that assms
    by (simp add: tree_at_def)
  ultimately show ?thesis by blast
qed

theorem Delete_absent_unchanged_witness:
  "list_all (\<lambda>y. KV_Compare (3, ''c'') y \<noteq> 0)
     (items (Node (1, ''a'') NilNode (Node (2, ''b'') NilNode NilNode 1) 2)) \<and>
   Tree_Delete KV_Compare
       \<lparr>root = Node (1, ''a'') NilNode (Node (2, ''b'') NilNode NilNode 1) 2, size_of = 2\<rparr>
       (3, ''c'') =
     Inr (\<lparr>root = Node (1, ''a'') NilNode (Node (2, ''b'') NilNode NilNode 1) 2, size_of = 2\<rparr>,
          None) \<and>
   tree_at store12 (Some 2) (Node (1, ''a'') NilNode (Node (2, ''b'') NilNode NilNode 1) 2) \<and>
   (\<exists>k0. \<forall>k\<ge>k0. Delete_h k KV_Compare store12 (Some 2) (3, ''c'') =
      Inr ((Some 2, None), store12))"
proof -
  have a: "\<forall>y\<in>set (items (root
      \<lparr>root = Node (1, ''a'') NilNode (Node (2, ''b'') NilNode NilNode 1) 2, size_of = 2\<rparr>)).
      KV_Compare (3, ''c'') y \<noteq> 0"
    by (simp add: KV_Compare_def)
  have t: "tree_at store12 (Some 2)
      (Node (1, ''a'') NilNode (Node (2, ''b'') NilNode NilNode 1) 2)"
    by (simp add: tree_at_def store12_def)
  from Delete_absent_unchanged[of "\<lparr>root = Node (1, ''a'') NilNode (Node (2, ''b'') NilNode NilNode 1) 2,
      size_of = 2\<rparr>" KV_Compare "(3, ''c'')"] a
  have "Tree_Delete KV_Compare
       \<lparr>root = Node (1, ''a'') NilNode (Node (2, ''b'') NilNode NilNode 1) 2, size_of = 2\<rparr>
       (3, ''c'') =
     Inr (\<lparr>root = Node (1, ''a'') NilNode (Node (2, ''b'') NilNode NilNode 1) 2, size_of = 2\<rparr>,
          None)"
    and "\<forall>hp p. tree_at hp p (Node (1, ''a'') NilNode (Node (2, ''b'') NilNode NilNode 1) 2) \<longrightarrow>
       (\<exists>k0. \<forall>k\<ge>k0. Delete_h k KV_Compare hp p (3, ''c'') = Inr ((p, None), hp))"
    by simp_all
  with t show ?thesis by (simp add: KV_Compare_def)
qed

text \<open>
  C9. On a tree built by the public operations, for every key \<open>x\<close>, \<open>Predecessor(x)\<close> is
  the greatest stored item less than \<open>x\<close>, or nothing when no stored item is less than
  \<open>x\<close>, and \<open>Successor(x)\<close> is the smallest stored item greater than \<open>x\<close>, or nothing
  when no stored item is greater.
\<close>

theorem Predecessor_Successor_correct:
  assumes "consistent cmp" "run cmp empty_Tree ops = Inr T"
  shows "is_predecessor cmp (items (root T)) x (Tree_Predecessor cmp T x) \<and>
         is_successor cmp (items (root T)) x (Tree_Successor cmp T x)"
proof -
  from run_empty_ok[OF assms(1), of ops] assms(2) have "ordered cmp (root T)" by auto
  with Predcessor_ok[OF assms(1)] Successor_ok[OF assms(1)] show ?thesis
    by (simp add: Tree_Predecessor_def Tree_Successor_def)
qed

theorem Predecessor_Successor_correct_witness:
  "consistent KV_Compare \<and>
   run KV_Compare empty_Tree [OpInsert (1, ''a''), OpInsert (3, ''c''), OpInsert (5, ''e'')] =
     Inr \<lparr>root = Node (3, ''c'') (Node (1, ''a'') NilNode NilNode 1)
                   (Node (5, ''e'') NilNode NilNode 1) 2, size_of = 3\<rparr> \<and>
   Tree_Predecessor KV_Compare
     \<lparr>root = Node (3, ''c'') (Node (1, ''a'') NilNode NilNode 1)
                   (Node (5, ''e'') NilNode NilNode 1) 2, size_of = 3\<rparr> (4, ''key'') =
     Some (3, ''c'') \<and>
   Tree_Successor KV_Compare
     \<lparr>root = Node (3, ''c'') (Node (1, ''a'') NilNode NilNode 1)
                   (Node (5, ''e'') NilNode NilNode 1) 2, size_of = 3\<rparr> (4, ''key'') =
     Some (5, ''e'') \<and>
   is_predecessor KV_Compare [(1, ''a''), (3, ''c''), (5, ''e'')] (4, ''key'') (Some (3, ''c'')) \<and>
   is_successor KV_Compare [(1, ''a''), (3, ''c''), (5, ''e'')] (4, ''key'') (Some (5, ''e''))"
proof -
  have r: "run KV_Compare empty_Tree [OpInsert (1, ''a''), OpInsert (3, ''c''), OpInsert (5, ''e'')] =
     Inr \<lparr>root = Node (3, ''c'') (Node (1, ''a'') NilNode NilNode 1)
                   (Node (5, ''e'') NilNode NilNode 1) 2, size_of = 3\<rparr>"
    by (simp add: eval_simps)
  from Predecessor_Successor_correct[OF consistent_KV_Compare r, of "(4, ''key'')"]
    r consistent_KV_Compare
  show ?thesis
    by (simp add: Tree_Predecessor_def Tree_Successor_def KV_Compare_def)
qed

text \<open>
  C10. On a tree \<open>T\<close> built by the public operations that holds no item comparing equal
  to \<open>x\<close>, \<open>T.Insert(x)\<close> inserts; \<open>Search(x)\<close> on the new tree returns \<open>x\<close>, and every
  \<open>Search(y)\<close> that returned an item on \<open>T\<close> returns the same item on the new tree.
\<close>

theorem Search_after_Insert:
  assumes "consistent cmp" "run cmp empty_Tree ops = Inr T"
    "\<forall>y\<in>set (items (root T)). cmp x y \<noteq> 0"
  shows "\<exists>T'. Tree_Insert cmp T x = Inr (T', None) \<and> Tree_Search cmp T' x = Some x \<and>
           (\<forall>y w. Tree_Search cmp T y = Some w \<longrightarrow> Tree_Search cmp T' y = Some w)"
proof -
  note c = assms(1)
  from run_empty_ok[OF c, of ops] assms(2) have a: "avl (root T)" and o: "ordered cmp (root T)"
    by auto
  from Insert_ok[OF c a o, of x] obtain n e where
    i: "Insert cmp (root T) x = Inr (n, e)" and on: "ordered cmp n"
    and e: "case e of
         Some w \<Rightarrow> n = root T \<and> w \<in> set (items (root T)) \<and> cmp x w = 0
       | None \<Rightarrow> (\<forall>y\<in>set (items (root T)). cmp x y \<noteq> 0) \<and>
           set (items n) = insert x (set (items (root T))) \<and>
           length (items n) = Suc (length (items (root T)))"
    by blast
  from e assms(3) have en: "e = None" by (cases e) auto
  with e have s: "set (items n) = insert x (set (items (root T)))" by simp
  have 1: "Search cmp n x = Some x"
    using Search_complete[OF c on, of x x] s cmp_refl[OF c, of x] by simp
  have 2: "Search cmp n y = Some w" if "Search cmp (root T) y = Some w" for y w
    using Search_sound[OF that] Search_complete[OF c on, of w y] s by simp
  from i en 1 2 show ?thesis
    by (simp add: Tree_Insert_def Tree_Search_def)
qed

theorem Search_after_Insert_witness:
  "consistent KV_Compare \<and>
   run KV_Compare empty_Tree [OpInsert (1, ''a''), OpInsert (2, ''b'')] =
     Inr \<lparr>root = Node (1, ''a'') NilNode (Node (2, ''b'') NilNode NilNode 1) 2, size_of = 2\<rparr> \<and>
   list_all (\<lambda>y. KV_Compare (3, ''c'') y \<noteq> 0)
     (items (Node (1, ''a'') NilNode (Node (2, ''b'') NilNode NilNode 1) 2)) \<and>
   Tree_Insert KV_Compare
       \<lparr>root = Node (1, ''a'') NilNode (Node (2, ''b'') NilNode NilNode 1) 2, size_of = 2\<rparr>
       (3, ''c'') =
     Inr (\<lparr>root = Node (2, ''b'') (Node (1, ''a'') NilNode NilNode 1)
                    (Node (3, ''c'') NilNode NilNode 1) 2, size_of = 3\<rparr>, None) \<and>
   Tree_Search KV_Compare
       \<lparr>root = Node (2, ''b'') (Node (1, ''a'') NilNode NilNode 1)
                    (Node (3, ''c'') NilNode NilNode 1) 2, size_of = 3\<rparr> (3, ''c'') =
     Some (3, ''c'') \<and>
   Tree_Search KV_Compare
       \<lparr>root = Node (1, ''a'') NilNode (Node (2, ''b'') NilNode NilNode 1) 2, size_of = 2\<rparr>
       (2, ''key'') = Some (2, ''b'') \<and>
   Tree_Search KV_Compare
       \<lparr>root = Node (2, ''b'') (Node (1, ''a'') NilNode NilNode 1)
                    (Node (3, ''c'') NilNode NilNode 1) 2, size_of = 3\<rparr> (2, ''key'') =
     Some (2, ''b'')"
proof -
  have r: "run KV_Compare empty_Tree [OpInsert (1, ''a''), OpInsert (2, ''b'')] =
     Inr \<lparr>root = Node (1, ''a'') NilNode (Node (2, ''b'') NilNode NilNode 1) 2, size_of = 2\<rparr>"
    by (simp add: eval_simps)
  have a: "\<forall>y\<in>set (items (root
      \<lparr>root = Node (1, ''a'') NilNode (Node (2, ''b'') NilNode NilNode 1) 2, size_of = 2\<rparr>)).
      KV_Compare (3, ''c'') y \<noteq> 0"
    by (simp add: KV_Compare_def)
  from Search_after_Insert[OF consistent_KV_Compare r, of "(3, ''c'')"] a
  obtain T' where
    t: "Tree_Insert KV_Compare
       \<lparr>root = Node (1, ''a'') NilNode (Node (2, ''b'') NilNode NilNode 1) 2, size_of = 2\<rparr>
       (3, ''c'') = Inr (T', None)"
       "Tree_Search KV_Compare T' (3, ''c'') = Some (3, ''c'')"
    by blast
  have i: "Tree_Insert KV_Compare
       \<lparr>root = Node (1, ''a'') NilNode (Node (2, ''b'') NilNode NilNode 1) 2, size_of = 2\<rparr>
       (3, ''c'') =
     Inr (\<lparr>root = Node (2, ''b'') (Node (1, ''a'') NilNode NilNode 1)
                    (Node (3, ''c'') NilNode NilNode 1) 2, size_of = 3\<rparr>, None)"
    by (simp add: eval_simps)
  with t have "Tree_Search KV_Compare
       \<lparr>root = Node (2, ''b'') (Node (1, ''a'') NilNode NilNode 1)
                    (Node (3, ''c'') NilNode NilNode 1) 2, size_of = 3\<rparr> (3, ''c'') =
     Some (3, ''c'')" by simp
  with r i consistent_KV_Compare show ?thesis
    by (simp add: Tree_Search_def KV_Compare_def)
qed

text \<open>
  C7. Let \<open>T1\<close> be a tree built by the public operations, held in a store \<open>hp\<close> with its
  root at \<open>p\<close>. With enough fuel \<open>Insert\<close>, \<open>Update\<close> and \<open>Delete\<close> on \<open>p\<close> return; what
  they return is the pointer to a tree that equals the result of the operation on values;
  every node allocated before the call has the contents it had (\<open>unchanged\<close>), and \<open>p\<close>
  still points to the tree \<open>T1\<close>. Before the call and after it, \<open>Size\<close>, \<open>Min\<close>, \<open>Max\<close>,
  \<open>Search\<close>, \<open>Predcessor\<close>, \<open>Successor\<close> and the three traversals, run on the store at
  \<open>p\<close>, return the same answers, those of the operations on the value \<open>T1\<close>. (\<open>Delete\<close>
  does store into a shared node, when \<open>destroy\<close> returns a child and \<open>adjustHeight\<close> is
  called on it; the value it stores is the height the field already holds.)
\<close>

theorem persistence:
  assumes T1: "run cmp empty_Tree ops = Inr T1" and hp: "tree_at hp p (root T1)"
  shows "reads_as cmp hp p (root T1) \<and> traverses_as hp p (root T1) fn \<and>
    (\<exists>k0. \<forall>k\<ge>k0.
      (\<exists>t' e p' hp'. Insert cmp (root T1) x = Inr (t', e) \<and>
          Insert_h k cmp hp p x = Inr ((p', e), hp') \<and> tree_at hp' p' t' \<and>
          unchanged hp hp' \<and> tree_at hp' p (root T1) \<and>
          reads_as cmp hp' p (root T1) \<and> traverses_as hp' p (root T1) fn) \<and>
      (\<exists>t' e p' hp'. Update cmp (root T1) x = Inr (t', e) \<and>
          Update_h k cmp hp p x = Inr ((p', e), hp') \<and> tree_at hp' p' t' \<and>
          unchanged hp hp' \<and> tree_at hp' p (root T1) \<and>
          reads_as cmp hp' p (root T1) \<and> traverses_as hp' p (root T1) fn) \<and>
      (\<exists>t' e p' hp'. Delete cmp (root T1) x = Inr (t', e) \<and>
          Delete_h k cmp hp p x = Inr ((p', e), hp') \<and> tree_at hp' p' t' \<and>
          unchanged hp hp' \<and> tree_at hp' p (root T1) \<and>
          reads_as cmp hp' p (root T1) \<and> traverses_as hp' p (root T1) fn))"
proof -
  from run_empty_avl[of cmp ops] T1 have a: "avl (root T1)" by auto
  note t = hp[unfolded tree_at_def]
  have A: "{..<next_free hp} \<subseteq> {..<next_free hp}" by simp
  from Insert_avl[OF a, of cmp x] obtain ti ei where i: "Insert cmp (root T1) x = Inr (ti, ei)"
    by blast
  from Update_avl[OF a, of cmp x] obtain tu where u: "Update cmp (root T1) x = Inr (tu, None)"
    by blast
  from Delete_destroy_avl(1)[OF a, of cmp x] obtain td ed where
    d: "Delete cmp (root T1) x = Inr (td, ed)" by blast
  from Insert_h_sim[OF t A i] obtain k1 where
    1: "\<forall>k\<ge>k1. \<exists>p' hp'. Insert_h k cmp hp p x = Inr ((p', ei), hp') \<and>
      tree_in ({..<next_free hp} \<union> {next_free hp..<next_free hp'}) hp' p' ti \<and>
      unchanged hp hp' \<and> (ei \<noteq> None \<longrightarrow> p' = p \<and> hp' = hp)" ..
  from Update_h_sim[OF t A u] obtain k2 where
    2: "\<forall>k\<ge>k2. \<exists>p' hp'. Update_h k cmp hp p x = Inr ((p', None), hp') \<and>
      tree_in ({..<next_free hp} \<union> {next_free hp..<next_free hp'}) hp' p' tu \<and>
      unchanged hp hp'" ..
  from Delete_destroy_h_sim(1)[OF t A a d] obtain k3 where
    3: "\<forall>k\<ge>k3. \<exists>p' hp'. Delete_h k cmp hp p x = Inr ((p', ed), hp') \<and>
      tree_in ({..<next_free hp} \<union> {next_free hp..<next_free hp'}) hp' p' td \<and>
      unchanged hp hp' \<and> (ed = None \<longrightarrow> p' = p \<and> hp' = hp)" ..
  have 1: "\<forall>k\<ge>k1. \<exists>t' e p' hp'. Insert cmp (root T1) x = Inr (t', e) \<and>
        Insert_h k cmp hp p x = Inr ((p', e), hp') \<and> tree_at hp' p' t' \<and>
        unchanged hp hp' \<and> tree_at hp' p (root T1) \<and>
        reads_as cmp hp' p (root T1) \<and> traverses_as hp' p (root T1) fn"
    using 1 i hp by (meson tree_at_result persists_after)
  have 2: "\<forall>k\<ge>k2. \<exists>t' e p' hp'. Update cmp (root T1) x = Inr (t', e) \<and>
        Update_h k cmp hp p x = Inr ((p', e), hp') \<and> tree_at hp' p' t' \<and>
        unchanged hp hp' \<and> tree_at hp' p (root T1) \<and>
        reads_as cmp hp' p (root T1) \<and> traverses_as hp' p (root T1) fn"
    using 2 u hp by (meson tree_at_result persists_after)
  have 3: "\<forall>k\<ge>k3. \<exists>t' e p' hp'. Delete cmp (root T1) x = Inr (t', e) \<and>
        Delete_h k cmp hp p x = Inr ((p', e), hp') \<and> tree_at hp' p' t' \<and>
        unchanged hp hp' \<and> tree_at hp' p (root T1) \<and>
        reads_as cmp hp' p (root T1) \<and> traverses_as hp' p (root T1) fn"
    using 3 d hp by (meson tree_at_result persists_after)
  from fuel_max3[OF 1 2 3] hp show ?thesis
    by (simp add: tree_at_reads_as tree_at_traverses_as)
qed

theorem persistence_witness:
  "run KV_Compare empty_Tree [OpInsert (1, ''a''), OpInsert (2, ''b'')] =
     Inr \<lparr>root = Node (1, ''a'') NilNode (Node (2, ''b'') NilNode NilNode 1) 2, size_of = 2\<rparr> \<and>
   tree_at store12 (Some 2) (Node (1, ''a'') NilNode (Node (2, ''b'') NilNode NilNode 1) 2) \<and>
   Delete_h 3 KV_Compare store12 (Some 2) (1, ''a'') = Inr ((Some 1, Some (1, ''a'')), store12) \<and>
   Search_h 3 KV_Compare store12 (Some 2) (2, ''key'') = Inr (Some (2, ''b'')) \<and>
   reads_as KV_Compare store12 (Some 2)
     (Node (1, ''a'') NilNode (Node (2, ''b'') NilNode NilNode 1) 2) \<and>
   traverses_as store12 (Some 2)
     (Node (1, ''a'') NilNode (Node (2, ''b'') NilNode NilNode 1) 2) (recording (\<lambda>x. True)) \<and>
   (\<exists>k0. \<forall>k\<ge>k0.
    (\<exists>t' e p' hp'.
        Insert KV_Compare (Node (1, ''a'') NilNode (Node (2, ''b'') NilNode NilNode 1) 2)
          (1, ''a'') = Inr (t', e) \<and>
        Insert_h k KV_Compare store12 (Some 2) (1, ''a'') = Inr ((p', e), hp') \<and>
        tree_at hp' p' t' \<and> unchanged store12 hp' \<and>
        tree_at hp' (Some 2) (Node (1, ''a'') NilNode (Node (2, ''b'') NilNode NilNode 1) 2) \<and>
        reads_as KV_Compare hp' (Some 2)
          (Node (1, ''a'') NilNode (Node (2, ''b'') NilNode NilNode 1) 2) \<and>
        traverses_as hp' (Some 2)
          (Node (1, ''a'') NilNode (Node (2, ''b'') NilNode NilNode 1) 2)
          (recording (\<lambda>x. True))) \<and>
    (\<exists>t' e p' hp'.
        Update KV_Compare (Node (1, ''a'') NilNode (Node (2, ''b'') NilNode NilNode 1) 2)
          (1, ''a'') = Inr (t', e) \<and>
        Update_h k KV_Compare store12 (Some 2) (1, ''a'') = Inr ((p', e), hp') \<and>
        tree_at hp' p' t' \<and> unchanged store12 hp' \<and>
        tree_at hp' (Some 2) (Node (1, ''a'') NilNode (Node (2, ''b'') NilNode NilNode 1) 2) \<and>
        reads_as KV_Compare hp' (Some 2)
          (Node (1, ''a'') NilNode (Node (2, ''b'') NilNode NilNode 1) 2) \<and>
        traverses_as hp' (Some 2)
          (Node (1, ''a'') NilNode (Node (2, ''b'') NilNode NilNode 1) 2)
          (recording (\<lambda>x. True))) \<and>
    (\<exists>t' e p' hp'.
        Delete KV_Compare (Node (1, ''a'') NilNode (Node (2, ''b'') NilNode NilNode 1) 2)
          (1, ''a'') = Inr (t', e) \<and>
        Delete_h k KV_Compare store12 (Some 2) (1, ''a'') = Inr ((p', e), hp') \<and>
        tree_at hp' p' t' \<and> unchanged store12 hp' \<and>
        tree_at hp' (Some 2) (Node (1, ''a'') NilNode (Node (2, ''b'') NilNode NilNode 1) 2) \<and>
        reads_as KV_Compare hp' (Some 2)
          (Node (1, ''a'') NilNode (Node (2, ''b'') NilNode NilNode 1) 2) \<and>
        traverses_as hp' (Some 2)
          (Node (1, ''a'') NilNode (Node (2, ''b'') NilNode NilNode 1) 2)
          (recording (\<lambda>x. True))))"
proof -
  have r: "run KV_Compare empty_Tree [OpInsert (1, ''a''), OpInsert (2, ''b'')] =
     Inr \<lparr>root = Node (1, ''a'') NilNode (Node (2, ''b'') NilNode NilNode 1) 2, size_of = 2\<rparr>"
    by (simp add: eval_simps)
  have t: "tree_at store12 (Some 2) (root
     \<lparr>root = Node (1, ''a'') NilNode (Node (2, ''b'') NilNode NilNode 1) 2, size_of = 2\<rparr>)"
    by (simp add: tree_at_def store12_def)
  have d: "Delete_h 3 KV_Compare store12 (Some 2) (1, ''a'') =
      Inr ((Some 1, Some (1, ''a'')), store12)"
    by (simp add: store_eval eval_nat_numeral fun_eq_iff)
  have s: "Search_h 3 KV_Compare store12 (Some 2) (2, ''key'') = Inr (Some (2, ''b''))"
    by (simp add: store_eval eval_nat_numeral)
  from persistence[of KV_Compare "[OpInsert (1, ''a''), OpInsert (2, ''b'')]"
      "\<lparr>root = Node (1, ''a'') NilNode (Node (2, ''b'') NilNode NilNode 1) 2, size_of = 2\<rparr>"
      store12 "Some 2" "recording (\<lambda>x. True)" "(1, ''a'')", OF r t]
    r t d s
  show ?thesis by simp
qed

end
